theory Spec2Isabelle
  imports Complex_Main "HOL-Library.Word"
begin

unbundle bit_operations_syntax

section \<open>Exceptions of the Python program\<close>

text \<open>
  Every exception that leaves a modelled function is a value; \<open>StructError\<close> is
  \<open>struct.error\<close>, \<open>TypeError\<close> and \<open>OverflowError\<close> are what building a transfer's data
  can raise. A \<open>usb.core.USBError\<close> never leaves the session thread: each one is
  caught where the world of a step says it is raised, so it needs no value here.
\<close>

datatype py_error =
    IndexError
  | StructError
  | StateError
  | AttributeError
  | ValueError
  | TypeError
  | OverflowError

type_synonym byte = "8 word"

section \<open>The framebuffer encoder (g13/displaydevice.py)\<close>

text \<open>
  \<open>class DisplayMetrics\<close>: the two geometry constants.
\<close>

definition WIDTH_PIXELS :: nat where
  "WIDTH_PIXELS = 160"

definition HEIGHT_PIXELS :: nat where
  "HEIGHT_PIXELS = 48"

text \<open>
  A PIL image after \<open>image.convert('1')\<close>: its size and the value of each pixel
  (0 for black, 255 for white in mode \<open>'1'\<close>). \<open>im_pixel\<close> is only ever consulted
  through \<open>pixels_get\<close>, which checks the coordinates as PIL's pixel access does.
\<close>

record image =
  im_width :: nat
  im_height :: nat
  im_pixel :: "nat \<Rightarrow> nat \<Rightarrow> int"

text \<open>
  \<open>pixels[x, y]\<close> on the object returned by \<open>image.load()\<close>: PIL raises
  \<open>IndexError\<close> when a coordinate is outside the image. The encoder only ever
  indexes with non-negative coordinates, so they are naturals here.
\<close>

definition pixels_get :: "image \<Rightarrow> nat \<Rightarrow> nat \<Rightarrow> py_error + int" where
  "pixels_get im x y =
     (if x < im_width im \<and> y < im_height im then Inr (im_pixel im x y)
      else Inl IndexError)"

text \<open>
  \<open>struct.pack('<B', b)\<close>: one unsigned byte, \<open>struct.error\<close> outside 0..255.
\<close>

definition struct_pack_B :: "int \<Rightarrow> py_error + byte" where
  "struct_pack_B b =
     (if 0 \<le> b \<and> b \<le> 255 then Inr (word_of_int b) else Inl StructError)"

text \<open>
  The inner loop \<open>for subrow in range(maxSubrow)\<close> of \<open>ImageToLPBM\<close>, over the list
  of the remaining values of \<open>subrow\<close>, with the accumulator \<open>b\<close>:
  \<^verbatim>\<open>
      pixel_value = pixels[col, row + subrow]
      b |= (1 if pixel_value == 0 else 0) << subrow
  \<close>
\<close>

fun subrow_loop :: "image \<Rightarrow> nat \<Rightarrow> nat \<Rightarrow> nat list \<Rightarrow> int \<Rightarrow> py_error + int" where
  "subrow_loop im col row [] b = Inr b"
| "subrow_loop im col row (subrow # rest) b =
     (case pixels_get im col (row + subrow) of
        Inl err \<Rightarrow> Inl err
      | Inr pixel_value \<Rightarrow>
          subrow_loop im col row rest
            (b OR push_bit subrow (if pixel_value = 0 then 1 else 0)))"

text \<open>
  One iteration of \<open>for byteNum in range(0, maxBytes)\<close>. The loop state is
  \<open>(row, col, bio)\<close>, \<open>bio\<close> being the bytes written to the \<open>BytesIO\<close> so far.
  \<^verbatim>\<open>
      b = 0
      maxSubrow = 3 if row == 40 else 8
      for subrow in range(maxSubrow): ...
      bio.write(struct.pack('<B', b))
      col += 1
      if col % DisplayMetrics.WIDTH_PIXELS == 0:
          col = 0
          row += 8
  \<close>
\<close>

type_synonym enc_state = "nat \<times> nat \<times> byte list"

definition byte_step :: "image \<Rightarrow> enc_state \<Rightarrow> py_error + enc_state" where
  "byte_step im s =
     (case s of (row, col, bio) \<Rightarrow>
        let maxSubrow = (if row = 40 then 3 else 8) in
        case subrow_loop im col row [0..<maxSubrow] 0 of
          Inl err \<Rightarrow> Inl err
        | Inr b \<Rightarrow>
            (case struct_pack_B b of
               Inl err \<Rightarrow> Inl err
             | Inr packed \<Rightarrow>
                 let bio' = bio @ [packed];
                     col' = col + 1
                 in if col' mod WIDTH_PIXELS = 0 then Inr (row + 8, 0, bio')
                    else Inr (row, col', bio')))"

fun byte_loop :: "image \<Rightarrow> nat list \<Rightarrow> enc_state \<Rightarrow> py_error + enc_state" where
  "byte_loop im [] s = Inr s"
| "byte_loop im (byteNum # rest) s =
     (case byte_step im s of
        Inl err \<Rightarrow> Inl err
      | Inr s' \<Rightarrow> byte_loop im rest s')"

definition maxBytes :: nat where
  "maxBytes = (WIDTH_PIXELS * HEIGHT_PIXELS) div 8"

text \<open>
  \<open>ImageToLPBM(image)\<close>, applied to the image already converted to mode \<open>'1'\<close>:
  \<open>row = 0; col = 0\<close>, the loop over \<open>range(0, maxBytes)\<close>, then \<open>bio.getvalue()\<close>.
  An exception leaves the function without a return value.
\<close>

definition ImageToLPBM :: "image \<Rightarrow> py_error + byte list" where
  "ImageToLPBM im =
     (case byte_loop im [0..<maxBytes] (0, 0, []) of
        Inl err \<Rightarrow> Inl err
      | Inr (row, col, bio) \<Rightarrow> Inr bio)"

text \<open>
  What the encoder's byte number \<open>i\<close> packs, read off the loop: the column, the first
  row of its band and how many rows of the band are read; and what a black pixel is.
\<close>

definition cell_col :: "nat \<Rightarrow> nat" where
  "cell_col i = i mod 160"

definition cell_row :: "nat \<Rightarrow> nat" where
  "cell_row i = 8 * (i div 160)"

definition cell_rows :: "nat \<Rightarrow> nat" where
  "cell_rows i = (if cell_row i = 40 then 3 else 8)"

definition black_at :: "image \<Rightarrow> nat \<Rightarrow> nat \<Rightarrow> bool" where
  "black_at im x y \<longleftrightarrow> im_pixel im x y = 0"

text \<open>
  The value the inner loop leaves in \<open>b\<close> after \<open>m\<close> subrows, the byte of cell
  \<open>i\<close>, the condition under which every pixel access of cell \<open>i\<close> is inside the
  image, and the loop state after \<open>n\<close> bytes. These are specification functions: the
  lemmas below show that the loops compute them.
\<close>

primrec strip_bits :: "image \<Rightarrow> nat \<Rightarrow> nat \<Rightarrow> nat \<Rightarrow> int" where
  "strip_bits im col row 0 = 0"
| "strip_bits im col row (Suc m) =
     strip_bits im col row m OR push_bit m (if im_pixel im col (row + m) = 0 then 1 else 0)"

definition cell_byte :: "image \<Rightarrow> nat \<Rightarrow> byte" where
  "cell_byte im i = word_of_int (strip_bits im (cell_col i) (cell_row i) (cell_rows i))"

definition cell_ok :: "image \<Rightarrow> nat \<Rightarrow> bool" where
  "cell_ok im i \<longleftrightarrow> cell_col i < im_width im \<and> cell_row i + cell_rows i \<le> im_height im"

definition enc_at :: "image \<Rightarrow> nat \<Rightarrow> enc_state" where
  "enc_at im n = (8 * (n div 160), n mod 160, map (cell_byte im) [0..<n])"

text \<open>Concrete images: the device's size in black and in white, and three other sizes.\<close>

definition black_image :: image where
  "black_image = \<lparr>im_width = 160, im_height = 48, im_pixel = (\<lambda>x y. 0)\<rparr>"

definition white_image :: image where
  "white_image = \<lparr>im_width = 160, im_height = 48, im_pixel = (\<lambda>x y. 255)\<rparr>"

definition short_image :: image where
  "short_image = \<lparr>im_width = 160, im_height = 43, im_pixel = (\<lambda>x y. 0)\<rparr>"

definition large_image :: image where
  "large_image = \<lparr>im_width = 320, im_height = 240, im_pixel = (\<lambda>x y. 0)\<rparr>"

definition small_image :: image where
  "small_image = \<lparr>im_width = 100, im_height = 48, im_pixel = (\<lambda>x y. 0)\<rparr>"

section \<open>The device session manager (g13gui/g13/manager.py)\<close>

subsection \<open>Data\<close>

text \<open>\<open>Manager.State\<close>, and \<open>StickMode\<close> of \<open>g13gui.model.bindings\<close> by the three members
  the manager compares with.\<close>

datatype State = DISCOVERING | FOUND | SHUTDOWN

datatype StickMode = ABSOLUTE | RELATIVE | KEYS

text \<open>The handle \<open>usb.core.find\<close> returns; \<open>self._device\<close> is \<open>None\<close> or such a handle.\<close>

datatype usb_device = UsbDevice

text \<open>
  The keys of \<open>self._lastKeyState\<close>: members of \<open>G13NormalKeys\<close> (written by
  \<open>_synthesizeKeys\<close>) and the names of stick regions (written by \<open>_synthesizeStick\<close>).
\<close>

datatype 'k key_name = NormalKey 'k | RegionName string

text \<open>
  The argument of \<open>setLCDBuffer\<close>: a \<open>bytes\<close> object (what \<open>ImageToLPBM\<close> returns and
  \<open>G13DisplayDevice.update\<close> passes on) or a list of integers. The other arguments are
  Python integers of any size.
\<close>

datatype py_buffer = BytesBuffer "byte list" | ListBuffer "int list"

text \<open>
  An entry \<open>[fn, args]\<close> of \<open>self._commandQueue\<close>: \<open>fn\<close> is one of the three bound
  methods \<open>_setLedsMode\<close>, \<open>_setBacklightColor\<close>, \<open>_setLCDBuffer\<close>.
\<close>

datatype command =
    Cmd_setLedsMode int
  | Cmd_setBacklightColor int int int
  | Cmd_setLCDBuffer py_buffer

text \<open>
  What the program does to the outside world is kept in two logs. \<open>usb_call\<close> is a call
  made on the device handle: \<open>reset()\<close>, \<open>usb.util.dispose_resources\<close>,
  \<open>is_kernel_driver_active(0)\<close>, \<open>detach_kernel_driver(0)\<close>, \<open>usb.util.find_descriptor\<close>,
  \<open>set_configuration\<close>, \<open>ctrl_transfer(type, bRequest, wValue, wIndex, data)\<close> and
  \<open>write(endpoint, data)\<close>, whether it returned or raised. \<open>uinput_event\<close> is a call on the virtual input device:
  \<open>write(type, code, value)\<close> and \<open>syn()\<close>.
\<close>

datatype usb_call =
    DevReset
  | DisposeResources
  | IsKernelDriverActive
  | DetachKernelDriver
  | FindDescriptor
  | SetConfiguration
  | CtrlTransfer int int int int "int list"
  | DevWrite int "int list"

datatype uinput_event = UWrite int int int | USyn

text \<open>Constants of \<open>evdev.ecodes\<close>, \<open>errno\<close> and of the module itself.\<close>

definition EV_KEY :: int where
  "EV_KEY = 1"

definition EV_ABS :: int where
  "EV_ABS = 3"

definition ABS_X :: int where
  "ABS_X = 0"

definition ABS_Y :: int where
  "ABS_Y = 1"

definition ETIMEDOUT :: int where
  "ETIMEDOUT = 110"

definition REPORT_SIZE :: nat where
  "REPORT_SIZE = 8"

text \<open>
  The collaborator \<open>self._prefs.selectedProfile()\<close>: its \<open>stickMode\<close>, its
  \<open>stickRegions()\<close> (a dict, in iteration order; a region is
  \<open>(x_min, y_min, x_max, y_max)\<close>) and \<open>keyBinding(name)\<close>. A Python float is
  modelled by the real number it stands for: the program compares floats, which is
  exact, and divides a byte by 255, which is not and is a parameter of the model.
\<close>

type_synonym region = "real \<times> real \<times> real \<times> real"

record 'k profile =
  stickMode :: StickMode
  stickRegions :: "(string \<times> region) list"
  keyBinding :: "'k key_name \<Rightarrow> int list"

text \<open>
  \<open>G13NormalKeys\<close> of \<open>g13gui.g13.common\<close> is not among the source files: the enum's
  members in iteration order and its method \<open>key.testReport(report)\<close> are parameters.
\<close>

record 'k key_table =
  G13NormalKeys :: "'k list"
  testReport :: "'k \<Rightarrow> byte list \<Rightarrow> bool"

text \<open>
  Where the session thread stands in \<open>Manager.run\<close> and the methods it calls. Each
  location is one statement (or one group of statements that touches neither
  \<open>self._state\<close> nor \<open>self._device\<close> twice); \<open>_reset\<close> remembers where it was called.
\<close>

datatype reset_caller = AfterEntry | AfterExcept | AfterExit

datatype location =
    RunLoop
  | DiscoverEntry
  | DiscoverSetState
  | DiscoverLoop
  | DiscoverFindLoop
  | DiscoverFind
  | DiscoverClaim
  | DiscoverSetFound
  | ResetCall reset_caller
  | ResetClear reset_caller
  | PollLoop
  | PollRead
  | ProcessCommands
  | ExitCheck
  | Finished
  | Crashed py_error

text \<open>
  The \<open>Manager\<close> object: \<open>_state\<close>, \<open>_device\<close>, \<open>_lastKeyState\<close>, \<open>_commandQueue\<close>,
  the local \<open>reportBuffer\<close> of \<open>run\<close>, the two logs, and the location of the thread.
\<close>

record 'k manager =
  state :: State
  device :: "usb_device option"
  lastKeyState :: "'k key_name \<rightharpoonup> bool"
  commandQueue :: "command list"
  reportBuffer :: "byte list"
  uinput :: "uinput_event list"
  usb_log :: "usb_call list"
  pc :: location

text \<open>\<open>Manager.__init__\<close>, and \<open>reportBuffer = usb.util.create_buffer(REPORT_SIZE)\<close>.\<close>

definition init :: "'k manager" where
  "init = \<lparr>state = DISCOVERING, device = None, lastKeyState = Map.empty,
     commandQueue = [], reportBuffer = replicate REPORT_SIZE 0, uinput = [],
     usb_log = [], pc = RunLoop\<rparr>"

subsection \<open>The operations other threads call\<close>

text \<open>
  \<^verbatim>\<open>
  def _ensureState(self, state):
      if self._state != state:
          raise StateError()
  \<close>
  Each operation returns what the caller sees (an exception or \<open>None\<close>) and the manager
  afterwards.
\<close>

definition ensureState :: "State \<Rightarrow> 'k manager \<Rightarrow> py_error + unit" where
  "ensureState st s = (if state s \<noteq> st then Inl StateError else Inr ())"

definition queue_put :: "command \<Rightarrow> 'k manager \<Rightarrow> 'k manager" where
  "queue_put c s = s\<lparr>commandQueue := commandQueue s @ [c]\<rparr>"

definition setLedsMode :: "int \<Rightarrow> 'k manager \<Rightarrow> (py_error + unit) \<times> 'k manager" where
  "setLedsMode leds s =
     (case ensureState FOUND s of
        Inl err \<Rightarrow> (Inl err, s)
      | Inr _ \<Rightarrow> (Inr (), queue_put (Cmd_setLedsMode leds) s))"

definition setBacklightColor ::
    "int \<Rightarrow> int \<Rightarrow> int \<Rightarrow> 'k manager \<Rightarrow> (py_error + unit) \<times> 'k manager" where
  "setBacklightColor r g b s =
     (case ensureState FOUND s of
        Inl err \<Rightarrow> (Inl err, s)
      | Inr _ \<Rightarrow> (Inr (), queue_put (Cmd_setBacklightColor r g b) s))"

definition setLCDBuffer :: "py_buffer \<Rightarrow> 'k manager \<Rightarrow> (py_error + unit) \<times> 'k manager" where
  "setLCDBuffer buffer s =
     (case ensureState FOUND s of
        Inl err \<Rightarrow> (Inl err, s)
      | Inr _ \<Rightarrow> (Inr (), queue_put (Cmd_setLCDBuffer buffer) s))"

definition shutdown :: "'k manager \<Rightarrow> (py_error + unit) \<times> 'k manager" where
  "shutdown s = (Inr (), s\<lparr>state := SHUTDOWN\<rparr>)"

text \<open>
  \<open>pyusb\<close> turns the data of a transfer into \<open>array.array('B', data)\<close> before it
  touches the device: an element outside 0..255 raises \<open>OverflowError\<close>.
\<close>

definition as_array :: "int list \<Rightarrow> py_error + int list" where
  "as_array data =
     (if list_all (\<lambda>x. 0 \<le> x \<and> x \<le> 255) data then Inr data else Inl OverflowError)"

text \<open>
  \<open>header + buffer\<close> in \<open>_setLCDBuffer\<close>, \<open>header\<close> being the list \<open>[0] * 32\<close> with
  \<open>header[0] = 0x03\<close>: a list and a \<open>bytes\<close> object do not concatenate, Python raises
  \<open>TypeError\<close>.
\<close>

definition header_plus :: "py_buffer \<Rightarrow> py_error + int list" where
  "header_plus buffer =
     (case buffer of
        BytesBuffer bs \<Rightarrow> Inl TypeError
      | ListBuffer xs \<Rightarrow> Inr ((3 # replicate 31 0) @ xs))"

text \<open>
  What running a queued command does before the device is touched: \<open>_setLedsMode\<close>,
  \<open>_setBacklightColor\<close> and \<open>_setLCDBuffer\<close> build their data, and the result is either
  an exception that is not a \<open>USBError\<close> or the call made on the device.
  \<open>CTRL_TYPE_CLASS | CTRL_RECIPIENT_INTERFACE\<close> is \<open>0x21\<close>,
  \<open>CTRL_OUT | G13Endpoints.LCD.value\<close> is 2.
\<close>

fun command_call :: "command \<Rightarrow> py_error + usb_call" where
  "command_call (Cmd_setLedsMode leds) =
     (case as_array [5, leds, 0, 0, 0] of
        Inl err \<Rightarrow> Inl err
      | Inr data \<Rightarrow> Inr (CtrlTransfer 0x21 9 0x305 0 data))"
| "command_call (Cmd_setBacklightColor r g b) =
     (case as_array [5, r, g, b, 0] of
        Inl err \<Rightarrow> Inl err
      | Inr data \<Rightarrow> Inr (CtrlTransfer 0x21 9 0x307 0 data))"
| "command_call (Cmd_setLCDBuffer buffer) =
     (case header_plus buffer of
        Inl err \<Rightarrow> Inl err
      | Inr joined \<Rightarrow>
          (case as_array joined of
             Inl err \<Rightarrow> Inl err
           | Inr data \<Rightarrow> Inr (DevWrite 2 data)))"

text \<open>The calls the queued commands make, for commands whose data is accepted.\<close>

definition accepted :: "command \<Rightarrow> bool" where
  "accepted c = (case command_call c of Inl err \<Rightarrow> False | Inr call \<Rightarrow> True)"

definition calls_of :: "command list \<Rightarrow> usb_call list" where
  "calls_of cs = map (\<lambda>c. projr (command_call c)) cs"

subsection \<open>Event synthesis\<close>

text \<open>\<open>self._lastKeyState.get(name, False)\<close>.\<close>

definition wasPressed_of :: "'k manager \<Rightarrow> 'k key_name \<Rightarrow> bool" where
  "wasPressed_of s name = (case lastKeyState s name of None \<Rightarrow> False | Some v \<Rightarrow> v)"

text \<open>\<open>for code in binding: self._uinput.write(e.EV_KEY, code, value)\<close>.\<close>

definition write_codes :: "int list \<Rightarrow> int \<Rightarrow> 'k manager \<Rightarrow> 'k manager" where
  "write_codes binding v s = s\<lparr>uinput := uinput s @ map (\<lambda>code. UWrite EV_KEY code v) binding\<rparr>"

text \<open>
  The body of the loop of \<open>_synthesizeKeys\<close>, for one \<open>key\<close>:
  \<^verbatim>\<open>
      binding = self._prefs.selectedProfile().keyBinding(key)
      wasPressed = self._lastKeyState.get(key, False)
      nowPressed = key.testReport(report)
      if not wasPressed and nowPressed:
          for code in binding: self._uinput.write(e.EV_KEY, code, 1)
      elif wasPressed and not nowPressed:
          for code in binding: self._uinput.write(e.EV_KEY, code, 0)
      self._lastKeyState[key] = nowPressed
  \<close>
\<close>

definition synthesizeKey ::
    "'k key_table \<Rightarrow> 'k profile \<Rightarrow> byte list \<Rightarrow> 'k \<Rightarrow> 'k manager \<Rightarrow> 'k manager" where
  "synthesizeKey kt prof report key s =
     (let binding = keyBinding prof (NormalKey key);
          wasPressed = wasPressed_of s (NormalKey key);
          nowPressed = testReport kt key report;
          s' = (if \<not> wasPressed \<and> nowPressed then write_codes binding 1 s
                else if wasPressed \<and> \<not> nowPressed then write_codes binding 0 s
                else s)
      in s'\<lparr>lastKeyState := (lastKeyState s')(NormalKey key \<mapsto> nowPressed)\<rparr>)"

definition synthesizeKeys ::
    "'k key_table \<Rightarrow> 'k profile \<Rightarrow> byte list \<Rightarrow> 'k manager \<Rightarrow> 'k manager" where
  "synthesizeKeys kt prof report s = fold (synthesizeKey kt prof report) (G13NormalKeys kt) s"

text \<open>
  The containment test of \<open>_synthesizeStick\<close>:
  \<^verbatim>\<open>
      inX = (joy_x >= region[0] and joy_x <= region[2])
      inY = (joy_y >= region[1] and joy_y <= region[3])
      nowPressed = inX and inY
  \<close>
  It is written for any linear order, to be used at the reals.
\<close>

definition inRegion :: "'a::linorder \<Rightarrow> 'a \<Rightarrow> 'a \<times> 'a \<times> 'a \<times> 'a \<Rightarrow> bool" where
  "inRegion joy_x joy_y region =
     (case region of (r0, r1, r2, r3) \<Rightarrow>
        let inX = (joy_x \<ge> r0 \<and> joy_x \<le> r2);
            inY = (joy_y \<ge> r1 \<and> joy_y \<le> r3)
        in inX \<and> inY)"

text \<open>The body of the loop \<open>for name, region in regions.items()\<close>.\<close>

definition synthesizeRegion ::
    "'k profile \<Rightarrow> real \<Rightarrow> real \<Rightarrow> string \<times> region \<Rightarrow> 'k manager \<Rightarrow> 'k manager" where
  "synthesizeRegion prof joy_x joy_y entry s =
     (case entry of (name, region) \<Rightarrow>
        let binding = keyBinding prof (RegionName name);
            wasPressed = wasPressed_of s (RegionName name);
            nowPressed = inRegion joy_x joy_y region;
            s' = (if \<not> wasPressed \<and> nowPressed then write_codes binding 1 s
                  else if wasPressed \<and> \<not> nowPressed then write_codes binding 0 s
                  else s)
        in s'\<lparr>lastKeyState := (lastKeyState s')(RegionName name \<mapsto> nowPressed)\<rparr>)"

text \<open>
  \<open>_synthesizeStick\<close>. \<open>(joy_x, joy_y) = report[1:3]\<close> raises \<open>ValueError\<close> unless the
  slice has two elements. \<open>joy_x / 255\<close> is Python's true division, which rounds to a
  double: the model does not compute the rounding, \<open>div255\<close> is the division, a
  parameter that gives for each byte the real number the resulting double stands for.
  In \<open>RELATIVE\<close> mode the method only prints.
\<close>

definition synthesizeStick ::
    "(int \<Rightarrow> real) \<Rightarrow> 'k profile \<Rightarrow> byte list \<Rightarrow> 'k manager \<Rightarrow> py_error + 'k manager" where
  "synthesizeStick div255 prof report s =
     (case take 2 (drop 1 report) of
        [b1, b2] \<Rightarrow>
          (let joy_x = uint b1; joy_y = uint b2 in
           if stickMode prof = KEYS then
             Inr (fold (synthesizeRegion prof (div255 joy_x) (div255 joy_y))
                    (stickRegions prof) s)
           else if stickMode prof = RELATIVE then Inr s
           else if stickMode prof = ABSOLUTE then
             Inr (s\<lparr>uinput := uinput s @ [UWrite EV_ABS ABS_X joy_x, UWrite EV_ABS ABS_Y joy_y]\<rparr>)
           else Inr s)
      | _ \<Rightarrow> Inl ValueError)"

text \<open>
  Lines 208 to 210 of \<open>run\<close>, for a full report:
  \<open>_synthesizeKeys\<close>, \<open>_synthesizeStick\<close>, \<open>self._uinput.syn()\<close>.
\<close>

definition synthesize ::
    "'k key_table \<Rightarrow> (int \<Rightarrow> real) \<Rightarrow> 'k profile \<Rightarrow> 'k manager \<Rightarrow> py_error + 'k manager" where
  "synthesize kt div255 prof s =
     (case synthesizeStick div255 prof (reportBuffer s)
             (synthesizeKeys kt prof (reportBuffer s) s) of
        Inl err \<Rightarrow> Inl err
      | Inr s' \<Rightarrow> Inr (s'\<lparr>uinput := uinput s' @ [USyn]\<rparr>))"

text \<open>What a function appends to the virtual input device's log.\<close>

definition emitted :: "('k manager \<Rightarrow> 'k manager) \<Rightarrow> 'k manager \<Rightarrow> uinput_event list" where
  "emitted f s = drop (length (uinput s)) (uinput (f s))"

text \<open>
  What the rounds of the loop of \<open>_synthesizeKeys\<close> for the keys \<open>ks\<close> write, each round
  taken at the manager \<open>s\<close>: a round reads and writes the entry of its own key only.
\<close>

definition rounds ::
    "'k key_table \<Rightarrow> 'k profile \<Rightarrow> byte list \<Rightarrow> 'k manager \<Rightarrow> 'k list \<Rightarrow> uinput_event list" where
  "rounds kt prof report s ks =
     concat (map (\<lambda>k. emitted (synthesizeKey kt prof report k) s) ks)"

subsection \<open>The session thread\<close>

text \<open>
  The outcome of the calls into \<open>pyusb\<close>, the profile in force and the float division
  while the thread takes one step. \<open>usb.core.find\<close> returns a device or \<open>None\<close> or
  raises \<open>USBError\<close>; a command's transfer succeeds or raises \<open>USBError\<close> with an
  \<open>errno\<close>; \<open>device.read\<close> delivers bytes into the buffer or raises \<open>USBError\<close>.
  The claim of lines 102 to 106 either returns, \<open>is_kernel_driver_active(0)\<close> having
  answered \<open>active\<close>, or one of its calls raises \<open>USBError\<close>.
\<close>

datatype find_result = FindNone | FindDevice | FindRaises int

datatype read_result = ReadData "byte list" | ReadRaises int

datatype claim_result =
    ClaimOk bool
  | ResetRaises int
  | DriverActiveRaises int
  | DetachRaises int
  | FindDescriptorRaises bool int
  | SetConfigurationRaises bool int

text \<open>
  The calls of lines 102 to 106 up to and including the one that raised:
  \<^verbatim>\<open>
      self._device.reset()
      if self._device.is_kernel_driver_active(0):
          self._device.detach_kernel_driver(0)
      cfg = usb.util.find_descriptor(self._device)
      self._device.set_configuration(cfg)
  \<close>
\<close>

definition detach_calls :: "bool \<Rightarrow> usb_call list" where
  "detach_calls active = (if active then [DetachKernelDriver] else [])"

fun claim_calls :: "claim_result \<Rightarrow> usb_call list" where
  "claim_calls (ClaimOk active) =
     [DevReset, IsKernelDriverActive] @ detach_calls active @ [FindDescriptor, SetConfiguration]"
| "claim_calls (ResetRaises errno) = [DevReset]"
| "claim_calls (DriverActiveRaises errno) = [DevReset, IsKernelDriverActive]"
| "claim_calls (DetachRaises errno) = [DevReset, IsKernelDriverActive, DetachKernelDriver]"
| "claim_calls (FindDescriptorRaises active errno) =
     [DevReset, IsKernelDriverActive] @ detach_calls active @ [FindDescriptor]"
| "claim_calls (SetConfigurationRaises active errno) =
     [DevReset, IsKernelDriverActive] @ detach_calls active @ [FindDescriptor, SetConfiguration]"

fun claim_ok :: "claim_result \<Rightarrow> bool" where
  "claim_ok (ClaimOk active) = True"
| "claim_ok r = False"

record 'k world =
  w_profile :: "'k profile"
  w_div255 :: "int \<Rightarrow> real"
  w_find :: find_result
  w_claim :: claim_result
  w_read :: read_result
  w_command :: "int option"

text \<open>The buffer after \<open>device.read\<close> has stored \<open>bs\<close> at its start.\<close>

definition read_into :: "byte list \<Rightarrow> byte list \<Rightarrow> byte list" where
  "read_into buffer bs = take (length buffer) (bs @ drop (length bs) buffer)"

text \<open>
  One step of the thread. The cases follow the source:
  \<^item> \<open>RunLoop\<close>: \<open>while self._state != Manager.State.SHUTDOWN\<close> (line 198);
  \<^item> \<open>DiscoverEntry\<close>: \<open>if self._device: self._reset()\<close> (89);
  \<^item> \<open>DiscoverSetState\<close>: \<open>self._state = Manager.State.DISCOVERING\<close> (92);
  \<^item> \<open>DiscoverLoop\<close>: \<open>while self._state == Manager.State.DISCOVERING\<close> (94), and the
    return to \<open>run\<close>;
  \<^item> \<open>DiscoverFindLoop\<close>: \<open>while not self._device\<close> (96);
  \<^item> \<open>DiscoverFind\<close>: \<open>self._device = usb.core.find(...)\<close> and the sleep (97 to 100);
    a \<open>USBError\<close> goes to the handler, which calls \<open>_reset\<close> (107 to 110);
  \<^item> \<open>DiscoverClaim\<close>: lines 102 to 106; a \<open>USBError\<close> of any of the calls goes to the
    handler, which calls \<open>_reset\<close>;
  \<^item> \<open>DiscoverSetFound\<close>: \<open>self._state = Manager.State.FOUND\<close> (112);
  \<^item> \<open>ResetCall\<close>: \<open>self._device.reset()\<close> with its \<open>USBError\<close> caught, and
    \<open>dispose_resources\<close> (78 to 83); with no device, \<open>None.reset()\<close> raises
    \<open>AttributeError\<close>, which nothing catches;
  \<^item> \<open>ResetClear\<close>: \<open>del self._device; self._device = None\<close>, the sleep and the return
    (84 to 86);
  \<^item> \<open>PollLoop\<close>: \<open>while self._state == Manager.State.FOUND\<close> (203);
  \<^item> \<open>PollRead\<close>: \<open>_readKeys\<close> and, for a full report, the synthesis (205 to 210); a
    \<open>USBError\<close> other than a timeout reaches \<open>except usb.core.USBError\<close> and \<open>break\<close>;
  \<^item> \<open>ProcessCommands\<close>: one round of the loop of \<open>_processCommands\<close> (187 to 193);
    a \<open>USBError\<close> of the command leaves the method and reaches the same \<open>break\<close>; a
    \<open>TypeError\<close> or \<open>OverflowError\<close> raised while the command builds its data is
    caught nowhere and ends the thread, the command dequeued;
  \<^item> \<open>ExitCheck\<close>: \<open>if self._device and self._state == Manager.State.FOUND: self._reset()\<close>
    (219).
\<close>

definition after_reset :: "reset_caller \<Rightarrow> location" where
  "after_reset c = (case c of
       AfterEntry \<Rightarrow> DiscoverSetState
     | AfterExcept \<Rightarrow> DiscoverLoop
     | AfterExit \<Rightarrow> Finished)"

definition poll_read :: "'k key_table \<Rightarrow> 'k world \<Rightarrow> 'k manager \<Rightarrow> 'k manager" where
  "poll_read kt w s =
     (case device s of
        None \<Rightarrow> s\<lparr>pc := Crashed AttributeError\<rparr>
      | Some d \<Rightarrow>
          (case w_read w of
             ReadRaises errno \<Rightarrow>
               if errno = ETIMEDOUT then s\<lparr>pc := ProcessCommands\<rparr>
               else s\<lparr>pc := RunLoop\<rparr>
           | ReadData bs \<Rightarrow>
               let s1 = s\<lparr>reportBuffer := read_into (reportBuffer s) bs\<rparr>;
                   count = min (length bs) (length (reportBuffer s))
               in if count = REPORT_SIZE then
                    (case synthesize kt (w_div255 w) (w_profile w) s1 of
                       Inl err \<Rightarrow> s1\<lparr>pc := Crashed err\<rparr>
                     | Inr s2 \<Rightarrow> s2\<lparr>pc := ProcessCommands\<rparr>)
                  else s1\<lparr>pc := ProcessCommands\<rparr>))"

definition process_command :: "'k world \<Rightarrow> 'k manager \<Rightarrow> 'k manager" where
  "process_command w s =
     (case commandQueue s of
        [] \<Rightarrow> s\<lparr>pc := PollLoop\<rparr>
      | c # rest \<Rightarrow>
          (case device s of
             None \<Rightarrow> s\<lparr>commandQueue := rest, pc := Crashed AttributeError\<rparr>
           | Some d \<Rightarrow>
               (case command_call c of
                  Inl err \<Rightarrow> s\<lparr>commandQueue := rest, pc := Crashed err\<rparr>
                | Inr call \<Rightarrow>
                    (case w_command w of
                       Some errno \<Rightarrow>
                         s\<lparr>commandQueue := rest, usb_log := usb_log s @ [call], pc := RunLoop\<rparr>
                     | None \<Rightarrow>
                         s\<lparr>commandQueue := rest, usb_log := usb_log s @ [call],
                           pc := ProcessCommands\<rparr>))))"

definition thread_step :: "'k key_table \<Rightarrow> 'k world \<Rightarrow> 'k manager \<Rightarrow> 'k manager" where
  "thread_step kt w s =
     (case pc s of
        RunLoop \<Rightarrow>
          if state s \<noteq> SHUTDOWN then s\<lparr>pc := DiscoverEntry\<rparr> else s\<lparr>pc := ExitCheck\<rparr>
      | DiscoverEntry \<Rightarrow>
          if device s \<noteq> None then s\<lparr>pc := ResetCall AfterEntry\<rparr>
          else s\<lparr>pc := DiscoverSetState\<rparr>
      | DiscoverSetState \<Rightarrow> s\<lparr>state := DISCOVERING, pc := DiscoverLoop\<rparr>
      | DiscoverLoop \<Rightarrow>
          if state s = DISCOVERING then s\<lparr>pc := DiscoverFindLoop\<rparr> else s\<lparr>pc := PollLoop\<rparr>
      | DiscoverFindLoop \<Rightarrow>
          if device s = None then s\<lparr>pc := DiscoverFind\<rparr> else s\<lparr>pc := DiscoverClaim\<rparr>
      | DiscoverFind \<Rightarrow>
          (case w_find w of
             FindRaises errno \<Rightarrow> s\<lparr>pc := ResetCall AfterExcept\<rparr>
           | FindNone \<Rightarrow> s\<lparr>device := None, pc := DiscoverFindLoop\<rparr>
           | FindDevice \<Rightarrow> s\<lparr>device := Some UsbDevice, pc := DiscoverFindLoop\<rparr>)
      | DiscoverClaim \<Rightarrow>
          (case device s of
             None \<Rightarrow> s\<lparr>pc := Crashed AttributeError\<rparr>
           | Some d \<Rightarrow>
               if claim_ok (w_claim w) then
                 s\<lparr>usb_log := usb_log s @ claim_calls (w_claim w), pc := DiscoverSetFound\<rparr>
               else
                 s\<lparr>usb_log := usb_log s @ claim_calls (w_claim w), pc := ResetCall AfterExcept\<rparr>)
      | DiscoverSetFound \<Rightarrow> s\<lparr>state := FOUND, pc := DiscoverLoop\<rparr>
      | ResetCall c \<Rightarrow>
          (case device s of
             None \<Rightarrow> s\<lparr>pc := Crashed AttributeError\<rparr>
           | Some d \<Rightarrow>
               s\<lparr>usb_log := usb_log s @ [DevReset, DisposeResources], pc := ResetClear c\<rparr>)
      | ResetClear c \<Rightarrow> s\<lparr>device := None, pc := after_reset c\<rparr>
      | PollLoop \<Rightarrow> if state s = FOUND then s\<lparr>pc := PollRead\<rparr> else s\<lparr>pc := RunLoop\<rparr>
      | PollRead \<Rightarrow> poll_read kt w s
      | ProcessCommands \<Rightarrow> process_command w s
      | ExitCheck \<Rightarrow>
          if device s \<noteq> None \<and> state s = FOUND then s\<lparr>pc := ResetCall AfterExit\<rparr>
          else s\<lparr>pc := Finished\<rparr>
      | Finished \<Rightarrow> s
      | Crashed err \<Rightarrow> s)"

subsection \<open>The whole system\<close>

text \<open>
  An event is one step of the session thread or one call of another thread, which the
  interpreter runs between two steps of the session thread. A caller's exception
  leaves the manager as it was.
\<close>

datatype api_call =
    Call_shutdown
  | Call_setLedsMode int
  | Call_setBacklightColor int int int
  | Call_setLCDBuffer py_buffer

datatype 'k event = Tick "'k world" | Call api_call

fun api :: "api_call \<Rightarrow> 'k manager \<Rightarrow> (py_error + unit) \<times> 'k manager" where
  "api Call_shutdown s = shutdown s"
| "api (Call_setLedsMode leds) s = setLedsMode leds s"
| "api (Call_setBacklightColor r g b) s = setBacklightColor r g b s"
| "api (Call_setLCDBuffer buffer) s = setLCDBuffer buffer s"

fun step :: "'k key_table \<Rightarrow> 'k event \<Rightarrow> 'k manager \<Rightarrow> 'k manager" where
  "step kt (Tick w) s = thread_step kt w s"
| "step kt (Call c) s = snd (api c s)"

definition run :: "'k key_table \<Rightarrow> 'k event list \<Rightarrow> 'k manager \<Rightarrow> 'k manager" where
  "run kt evs s = fold (step kt) evs s"

inductive reachable :: "'k key_table \<Rightarrow> 'k manager \<Rightarrow> bool" for kt :: "'k key_table" where
  reachable_init: "reachable kt init"
| reachable_step: "reachable kt s \<Longrightarrow> reachable kt (step kt ev s)"

text \<open>
  The steps of the thread from the \<open>break\<close> of the polling loop back to
  \<open>_processCommands\<close>, when the device is found at once: the outer loop test, the test
  and the two steps of \<open>_reset\<close>, \<open>DISCOVERING\<close>, the two loop tests, \<open>usb.core.find\<close>
  (in the world \<open>wfind\<close>), the loop test, the claim (in \<open>wclaim\<close>), \<open>FOUND\<close>, the three loop
  tests and the read (in \<open>wread\<close>). The steps that make no call ignore their world \<open>a\<close>.
\<close>

definition rediscover :: "'k world \<Rightarrow> 'k world \<Rightarrow> 'k world \<Rightarrow> 'k world \<Rightarrow> 'k event list" where
  "rediscover a wfind wclaim wread = map Tick [a, a, a, a, a, a, a, wfind, a, wclaim, a, a, a, wread]"

subsection \<open>A concrete table, profile and world\<close>

text \<open>
  Three keys whose bits are bits 0 to 2 of byte 3 of the report, a profile in \<open>KEYS\<close>
  mode with one region, and a world in which the device is present, no kernel driver is
  attached, every transfer succeeds and the read times out. No run below evaluates the
  world's division, which is given without its rounding.
\<close>

definition demo_keys :: "nat key_table" where
  "demo_keys = \<lparr>G13NormalKeys = [0, 1, 2],
     testReport = (\<lambda>key report. case drop 3 report of [] \<Rightarrow> False | b # _ \<Rightarrow> bit b key)\<rparr>"

definition demo_profile :: "nat profile" where
  "demo_profile = \<lparr>stickMode = KEYS,
     stickRegions = [(''CENTER'', (0.25, 0.25, 0.75, 0.75))],
     keyBinding = (\<lambda>name. case name of NormalKey k \<Rightarrow> [int k + 2] | RegionName r \<Rightarrow> [57])\<rparr>"

definition quiet :: "nat world" where
  "quiet = \<lparr>w_profile = demo_profile, w_div255 = (\<lambda>joy. real_of_int joy / 255),
     w_find = FindDevice, w_claim = ClaimOk False,
     w_read = ReadRaises ETIMEDOUT, w_command = None\<rparr>"

text \<open>A full report whose byte 3 is \<open>b\<close>.\<close>

definition report_with :: "byte \<Rightarrow> byte list" where
  "report_with b = [0, 0, 0, b, 0, 0, 0, 0]"

subsection \<open>Invariant of the session thread\<close>

text \<open>
  What holds of \<open>self._state\<close> and \<open>self._device\<close> at each location of the thread, in
  every reachable state. The two locations of the reset that \<open>run\<close> calls after its
  loop are not reachable.
\<close>

definition session_inv :: "'k manager \<Rightarrow> bool" where
  "session_inv s =
     (case pc s of
        RunLoop \<Rightarrow> (state s = FOUND \<longrightarrow> device s \<noteq> None) \<and> (state s = DISCOVERING \<longrightarrow> device s = None)
      | DiscoverEntry \<Rightarrow> (state s = FOUND \<longrightarrow> device s \<noteq> None) \<and> (state s = DISCOVERING \<longrightarrow> device s = None)
      | DiscoverSetState \<Rightarrow> device s = None
      | DiscoverLoop \<Rightarrow> (state s = FOUND \<longrightarrow> device s \<noteq> None) \<and> (state s = DISCOVERING \<longrightarrow> device s = None)
      | DiscoverFindLoop \<Rightarrow> state s \<noteq> FOUND
      | DiscoverFind \<Rightarrow> device s = None \<and> state s \<noteq> FOUND
      | DiscoverClaim \<Rightarrow> device s \<noteq> None \<and> state s \<noteq> FOUND
      | DiscoverSetFound \<Rightarrow> device s \<noteq> None \<and> state s \<noteq> FOUND
      | ResetCall c \<Rightarrow>
          (case c of
             AfterEntry \<Rightarrow> device s \<noteq> None \<and> state s \<noteq> DISCOVERING
           | AfterExcept \<Rightarrow> state s \<noteq> FOUND
           | AfterExit \<Rightarrow> False)
      | ResetClear c \<Rightarrow>
          (case c of
             AfterEntry \<Rightarrow> device s \<noteq> None \<and> state s \<noteq> DISCOVERING
           | AfterExcept \<Rightarrow> device s \<noteq> None \<and> state s \<noteq> FOUND
           | AfterExit \<Rightarrow> False)
      | PollLoop \<Rightarrow> (state s = FOUND \<longrightarrow> device s \<noteq> None) \<and> state s \<noteq> DISCOVERING
      | PollRead \<Rightarrow> device s \<noteq> None \<and> state s \<noteq> DISCOVERING
      | ProcessCommands \<Rightarrow> device s \<noteq> None \<and> state s \<noteq> DISCOVERING
      | ExitCheck \<Rightarrow> state s = SHUTDOWN
      | Finished \<Rightarrow> state s = SHUTDOWN
      | Crashed err \<Rightarrow> (state s = FOUND \<longrightarrow> device s \<noteq> None) \<and> (state s = DISCOVERING \<longrightarrow> device s = None))"

text \<open>Two managers that differ at most in \<open>_lastKeyState\<close> and the virtual input log.\<close>

definition same_session :: "'k manager \<Rightarrow> 'k manager \<Rightarrow> bool" where
  "same_session s s' \<longleftrightarrow>
     state s' = state s \<and> device s' = device s \<and> commandQueue s' = commandQueue s \<and>
     reportBuffer s' = reportBuffer s \<and> usb_log s' = usb_log s \<and> pc s' = pc s"

subsection \<open>Concrete runs\<close>

text \<open>
  A world in which the read and the command's transfer raise \<open>USBError\<close> with
  \<open>errno\<close> 19 (\<open>ENODEV\<close>); the thirteen steps from a new manager to the head of the
  polling loop in \<open>FOUND\<close>; two calls that queue a command each.
\<close>

definition io_error :: "nat world" where
  "io_error = quiet\<lparr>w_read := ReadRaises 19, w_command := Some 19\<rparr>"

definition to_found :: "nat event list" where
  "to_found = replicate 13 (Tick quiet)"

definition two_commands :: "nat event list" where
  "two_commands = [Call (Call_setLedsMode 1), Call (Call_setBacklightColor 1 2 3)]"

section \<open>Properties of the framebuffer encoder\<close>

lemma subrow_loop_append:
  "subrow_loop im col row (xs @ ys) b =
     (case subrow_loop im col row xs b of
        Inl err \<Rightarrow> Inl err
      | Inr b' \<Rightarrow> subrow_loop im col row ys b')"
  by (induction xs arbitrary: b) (auto split: sum.splits)

lemma byte_loop_append:
  "byte_loop im (xs @ ys) s =
     (case byte_loop im xs s of
        Inl err \<Rightarrow> Inl err
      | Inr s' \<Rightarrow> byte_loop im ys s')"
  by (induction xs arbitrary: s) (auto split: sum.splits)

lemma bit_strip_bits:
  "bit (strip_bits im col row m) k \<longleftrightarrow> k < m \<and> im_pixel im col (row + k) = 0"
proof (induction m)
  case 0
  then show ?case by simp
next
  case (Suc m)
  show ?case
    by (auto simp add: bit_or_iff bit_push_bit_iff Suc.IH less_Suc_eq bit_1_iff)
qed

lemma strip_bits_nonneg: "0 \<le> strip_bits im col row m"
  by (induction m) simp_all

lemma strip_bits_less: "strip_bits im col row m < 2 ^ m"
proof (induction m)
  case 0
  then show ?case by simp
next
  case (Suc m)
  have "strip_bits im col row m OR push_bit m (if im_pixel im col (row + m) = 0 then 1 else 0) < 2 ^ Suc m"
    apply (rule OR_upper)
    using Suc strip_bits_nonneg[of im col row m] apply (auto simp add: push_bit_eq_mult)
    done
  then show ?case by simp
qed

lemma subrow_loop_upt:
  "subrow_loop im col row [0..<m] 0 =
     (if m = 0 \<or> (col < im_width im \<and> row + m \<le> im_height im)
      then Inr (strip_bits im col row m) else Inl IndexError)"
proof (induction m)
  case 0
  then show ?case by simp
next
  case (Suc m)
  show ?case
    by (auto simp add: subrow_loop_append Suc.IH pixels_get_def)
qed


lemma byte_step_enc_at:
  "byte_step im (enc_at im n) =
     (if cell_ok im n then Inr (enc_at im (Suc n)) else Inl IndexError)"
proof -
  have rows: "(if 8 * (n div 160) = 40 then 3 else 8) = cell_rows n"
    by (simp add: cell_rows_def cell_row_def)
  have pack: "struct_pack_B (strip_bits im c r (cell_rows n)) =
      Inr (word_of_int (strip_bits im c r (cell_rows n)))" for c r
  proof -
    have "strip_bits im c r (cell_rows n) < 2 ^ cell_rows n"
      by (rule strip_bits_less)
    also have "\<dots> \<le> 2 ^ 8"
      by (rule power_increasing) (simp_all add: cell_rows_def)
    finally show ?thesis
      using strip_bits_nonneg [of im c r "cell_rows n"] by (simp add: struct_pack_B_def)
  qed
  have wrap: "Suc (n mod 160) mod 160 = 0 \<Longrightarrow>
      Suc n div 160 = Suc (n div 160) \<and> Suc n mod 160 = 0"
    by (simp add: mod_Suc div_Suc split: if_splits)
  have stay: "Suc (n mod 160) mod 160 \<noteq> 0 \<Longrightarrow>
      Suc n div 160 = n div 160 \<and> Suc n mod 160 = Suc (n mod 160)"
    by (simp add: mod_Suc div_Suc split: if_splits)
  have next_state:
    "(if Suc (n mod 160) mod 160 = 0 then Inr (8 * (n div 160) + 8, 0, bs)
      else Inr (8 * (n div 160), Suc (n mod 160), bs)) =
     (Inr (8 * (Suc n div 160), Suc n mod 160, bs) :: py_error + enc_state)" for bs
    using wrap stay by auto
  have sub: "subrow_loop im (n mod 160) (8 * (n div 160)) [0..<cell_rows n] 0 =
      (if cell_ok im n then Inr (strip_bits im (cell_col n) (cell_row n) (cell_rows n))
       else Inl IndexError)"
    by (simp add: subrow_loop_upt cell_ok_def cell_col_def cell_row_def)
       (simp add: cell_rows_def)
  have "byte_step im (enc_at im n) =
      (case subrow_loop im (n mod 160) (8 * (n div 160)) [0..<cell_rows n] 0 of
          Inl err \<Rightarrow> Inl err
        | Inr b \<Rightarrow>
            (case struct_pack_B b of
               Inl err \<Rightarrow> Inl err
             | Inr packed \<Rightarrow>
                 if Suc (n mod 160) mod 160 = 0
                 then Inr (8 * (n div 160) + 8, 0, map (cell_byte im) [0..<n] @ [packed])
                 else Inr (8 * (n div 160), Suc (n mod 160), map (cell_byte im) [0..<n] @ [packed])))"
    by (simp add: enc_at_def byte_step_def cell_rows_def cell_row_def Let_def WIDTH_PIXELS_def
        cong: sum.case_cong)
  also have "\<dots> = (if cell_ok im n then Inr (enc_at im (Suc n)) else Inl IndexError)"
    by (simp add: sub pack next_state) (simp add: enc_at_def cell_byte_def)
  finally show ?thesis .
qed

lemma byte_loop_upt:
  "byte_loop im [0..<n] (enc_at im 0) =
     (if \<forall>i<n. cell_ok im i then Inr (enc_at im n) else Inl IndexError)"
proof (induction n)
  case 0
  then show ?case by simp
next
  case (Suc n)
  show ?case
    by (auto simp add: byte_loop_append Suc.IH byte_step_enc_at less_Suc_eq)
qed

lemma all_cells_ok:
  "(\<forall>i<960. cell_ok im i) \<longleftrightarrow> 160 \<le> im_width im \<and> 43 \<le> im_height im"
proof
  assume a: "\<forall>i<960. cell_ok im i"
  then have "cell_ok im 959" by simp
  then show "160 \<le> im_width im \<and> 43 \<le> im_height im"
    by (simp add: cell_ok_def cell_col_def cell_row_def cell_rows_def)
next
  assume b: "160 \<le> im_width im \<and> 43 \<le> im_height im"
  show "\<forall>i<960. cell_ok im i"
  proof (intro allI impI)
    fix i :: nat
    assume "i < 960"
    then have "i div 160 < 6" by simp
    then have "i div 160 = 5 \<or> i div 160 \<le> 4" by arith
    moreover have "i mod 160 < 160" by simp
    ultimately show "cell_ok im i"
      using b by (auto simp add: cell_ok_def cell_col_def cell_row_def cell_rows_def)
  qed
qed

lemma ImageToLPBM_eq:
  "ImageToLPBM im =
     (if 160 \<le> im_width im \<and> 43 \<le> im_height im
      then Inr (map (cell_byte im) [0..<960]) else Inl IndexError)"
proof -
  have "maxBytes = 960"
    by (simp add: maxBytes_def WIDTH_PIXELS_def HEIGHT_PIXELS_def)
  moreover have start: "enc_at im 0 = (0, 0, [])"
    by (simp add: enc_at_def)
  ultimately have "ImageToLPBM im =
     (case byte_loop im [0..<960] (enc_at im 0) of
        Inl err \<Rightarrow> Inl err
      | Inr (row, col, bio) \<Rightarrow> Inr bio)"
    by (simp add: ImageToLPBM_def)
  also have "\<dots> = (if 160 \<le> im_width im \<and> 43 \<le> im_height im
      then Inr (map (cell_byte im) [0..<960]) else Inl IndexError)"
    unfolding byte_loop_upt all_cells_ok by (simp add: enc_at_def)
  finally show ?thesis .
qed

lemma cell_byte_bit:
  "bit (cell_byte im i) k \<longleftrightarrow>
     k < 8 \<and> k < cell_rows i \<and> im_pixel im (cell_col i) (cell_row i + k) = 0"
  by (auto simp add: cell_byte_def bit_word_of_int_iff bit_strip_bits)

lemma cell_byte_all_black:
  assumes "\<forall>k<cell_rows i. im_pixel im (cell_col i) (cell_row i + k) = 0"
  shows "cell_byte im i = mask (cell_rows i)"
proof (rule bit_eqI)
  fix k
  have "cell_rows i \<le> 8" by (simp add: cell_rows_def)
  then show "bit (cell_byte im i) k = bit (mask (cell_rows i) :: byte) k"
    using assms by (auto simp add: cell_byte_bit bit_mask_iff)
qed

lemma cell_byte_none_black:
  assumes "\<forall>k<cell_rows i. im_pixel im (cell_col i) (cell_row i + k) \<noteq> 0"
  shows "cell_byte im i = 0"
proof (rule bit_eqI)
  fix k
  show "bit (cell_byte im i) k = bit (0 :: byte) k"
    using assms by (auto simp add: cell_byte_bit)
qed

lemma cell_in_image:
  assumes "i < 960" "k < cell_rows i"
  shows "cell_col i < 160 \<and> cell_row i + k < 48"
proof -
  from assms(1) have "i div 160 < 6" by simp
  then have "i div 160 = 5 \<or> i div 160 \<le> 4" by arith
  then show ?thesis
    using assms(2) by (auto simp add: cell_col_def cell_row_def cell_rows_def)
qed

lemma cell_rows_cases: "cell_rows i = (if i div 160 = 5 then 3 else 8)"
  by (simp add: cell_rows_def cell_row_def)

lemma encode_all_black:
  assumes "160 \<le> im_width im" "43 \<le> im_height im"
    and "\<forall>x<160. \<forall>y<48. im_pixel im x y = 0"
  shows "ImageToLPBM im = Inr (replicate 800 255 @ replicate 160 7)"
proof -
  have "map (cell_byte im) [0..<960] = replicate 800 255 @ replicate 160 7"
  proof (rule nth_equalityI)
    show "length (map (cell_byte im) [0..<960]) = length (replicate 800 255 @ replicate 160 (7::byte))"
      by simp
  next
    fix i
    assume "i < length (map (cell_byte im) [0..<960])"
    then have i: "i < 960" by simp
    have "\<forall>k<cell_rows i. im_pixel im (cell_col i) (cell_row i + k) = 0"
      using cell_in_image [OF i] assms(3) by blast
    then have eq: "cell_byte im i = mask (cell_rows i)"
      by (rule cell_byte_all_black)
    have "i < 800 \<Longrightarrow> i div 160 \<noteq> 5" by arith
    moreover have "\<not> i < 800 \<Longrightarrow> i div 160 = 5" using i by arith
    ultimately have "cell_byte im i = (if i < 800 then 255 else 7)"
      by (simp add: eq cell_rows_cases mask_eq_exp_minus_1)
    then show "map (cell_byte im) [0..<960] ! i = (replicate 800 255 @ replicate 160 7) ! i"
      using i by (simp add: nth_append)
  qed
  then show ?thesis
    using assms(1,2) by (simp add: ImageToLPBM_eq)
qed

lemma encode_none_black:
  assumes "160 \<le> im_width im" "43 \<le> im_height im"
    and "\<forall>x<160. \<forall>y<48. im_pixel im x y \<noteq> 0"
  shows "ImageToLPBM im = Inr (replicate 960 0)"
proof -
  have "map (cell_byte im) [0..<960] = replicate 960 0"
  proof (rule nth_equalityI)
    show "length (map (cell_byte im) [0..<960]) = length (replicate 960 (0::byte))"
      by simp
  next
    fix i
    assume "i < length (map (cell_byte im) [0..<960])"
    then have i: "i < 960" by simp
    have "\<forall>k<cell_rows i. im_pixel im (cell_col i) (cell_row i + k) \<noteq> 0"
      using cell_in_image [OF i] assms(3) by blast
    then have "cell_byte im i = 0"
      by (rule cell_byte_none_black)
    then show "map (cell_byte im) [0..<960] ! i = replicate 960 0 ! i"
      using i by simp
  qed
  then show ?thesis
    using assms(1,2) by (simp add: ImageToLPBM_eq)
qed

lemma replicate_black_differs:
  "replicate 800 255 @ replicate 160 7 \<noteq> replicate 960 (255 :: byte) \<and>
   replicate 800 255 @ replicate 160 7 \<noteq> replicate 960 (0 :: byte) \<and>
   map NOT (replicate 800 255 @ replicate 160 (7 :: byte)) \<noteq> replicate 960 0"
proof -
  have "(replicate 800 255 @ replicate 160 7) ! 800 = (7 :: byte)"
    by (simp add: nth_append)
  moreover have "replicate 960 (255 :: byte) ! 800 = 255" and "replicate 960 (0 :: byte) ! 800 = 0"
    by simp_all
  moreover have "map NOT (replicate 800 255 @ replicate 160 (7 :: byte)) ! 800 = 248"
    by (simp add: nth_append)
  moreover have "(7 :: byte) \<noteq> 255" and "(7 :: byte) \<noteq> 0" and "(248 :: byte) \<noteq> 0"
    by simp_all
  ultimately show ?thesis
    by metis
qed

subsection \<open>The claims about the encoder\<close>

text \<open>
  C1, as the code has it. \<open>ImageToLPBM\<close> compares the image's size with nothing: it
  reads columns 0..159 and rows 0..42 and fails only where PIL's pixel access does.
  An image at least 160 wide and 43 high, whatever its size, is encoded to 960 bytes;
  a narrower or shorter one raises \<open>IndexError\<close> and no bytes are returned.
\<close>

theorem ImageToLPBM_dimensions:
  "ImageToLPBM im =
     (if WIDTH_PIXELS \<le> im_width im \<and> 43 \<le> im_height im
      then Inr (map (cell_byte im) [0..<maxBytes]) else Inl IndexError) \<and>
   length (map (cell_byte im) [0..<maxBytes]) = 960"
  by (simp add: ImageToLPBM_eq WIDTH_PIXELS_def HEIGHT_PIXELS_def maxBytes_def)

theorem ImageToLPBM_dimensions_witness:
  "ImageToLPBM small_image = Inl IndexError \<and>
   ImageToLPBM large_image = Inr (map (cell_byte large_image) [0..<maxBytes])"
  using ImageToLPBM_dimensions [of small_image] ImageToLPBM_dimensions [of large_image]
  by (simp add: small_image_def large_image_def WIDTH_PIXELS_def)

text \<open>
  C1 as stated fails: a 320x240 image and a 160x43 image, neither of the device's
  size, are both encoded, to the bytes of a black 160x48 image.
\<close>

theorem ImageToLPBM_wrong_size_counterexample:
  "(im_width large_image, im_height large_image) \<noteq> (WIDTH_PIXELS, HEIGHT_PIXELS) \<and>
   ImageToLPBM large_image = Inr (replicate 800 255 @ replicate 160 7) \<and>
   (im_width short_image, im_height short_image) \<noteq> (WIDTH_PIXELS, HEIGHT_PIXELS) \<and>
   ImageToLPBM short_image = Inr (replicate 800 255 @ replicate 160 7)"
proof -
  have "ImageToLPBM large_image = Inr (replicate 800 255 @ replicate 160 7)"
    by (rule encode_all_black) (simp_all add: large_image_def)
  moreover have "ImageToLPBM short_image = Inr (replicate 800 255 @ replicate 160 7)"
    by (rule encode_all_black) (simp_all add: short_image_def)
  ultimately show ?thesis
    by (simp add: large_image_def short_image_def WIDTH_PIXELS_def HEIGHT_PIXELS_def)
qed

text \<open>
  C6. For an image of the device's size the encoder returns 960 bytes, and bit \<open>k\<close> of
  byte \<open>i\<close> is set exactly when the pixel at column \<open>i mod 160\<close>, row
  \<open>8 * (i div 160) + k\<close> is black; in the band that starts at row 40 only \<open>k < 3\<close>
  is read and bits 3 to 7 stay 0.
\<close>

theorem ImageToLPBM_layout:
  assumes "im_width im = WIDTH_PIXELS" and "im_height im = HEIGHT_PIXELS"
  shows "\<exists>out. ImageToLPBM im = Inr out \<and>
      length out = WIDTH_PIXELS * HEIGHT_PIXELS div 8 \<and> length out = 960 \<and>
      (\<forall>i<960. \<forall>k<8.
         bit (out ! i) k \<longleftrightarrow>
           (if 8 * (i div WIDTH_PIXELS) = 40 then k < 3 else True) \<and>
           black_at im (i mod WIDTH_PIXELS) (8 * (i div WIDTH_PIXELS) + k))"
proof -
  have "ImageToLPBM im = Inr (map (cell_byte im) [0..<960])"
    using assms by (simp add: ImageToLPBM_eq WIDTH_PIXELS_def HEIGHT_PIXELS_def)
  moreover have "\<forall>i<960. \<forall>k<8.
         bit (map (cell_byte im) [0..<960] ! i) k \<longleftrightarrow>
           (if 8 * (i div WIDTH_PIXELS) = 40 then k < 3 else True) \<and>
           black_at im (i mod WIDTH_PIXELS) (8 * (i div WIDTH_PIXELS) + k)"
    by (auto simp add: cell_byte_bit cell_rows_def cell_row_def cell_col_def
        black_at_def WIDTH_PIXELS_def)
  ultimately show ?thesis
    by (simp add: WIDTH_PIXELS_def HEIGHT_PIXELS_def)
qed

theorem ImageToLPBM_layout_witness:
  "\<exists>out. ImageToLPBM black_image = Inr out \<and> length out = 960 \<and>
     bit (out ! 0) 7 \<and> bit (out ! 959) 2 \<and> \<not> bit (out ! 959) 3"
proof -
  have w: "im_width black_image = WIDTH_PIXELS" and h: "im_height black_image = HEIGHT_PIXELS"
    by (simp_all add: black_image_def WIDTH_PIXELS_def HEIGHT_PIXELS_def)
  from ImageToLPBM_layout [OF w h] obtain out where
    out: "ImageToLPBM black_image = Inr out" "length out = 960"
    and bits: "\<forall>i<960. \<forall>k<8.
         bit (out ! i) k \<longleftrightarrow>
           (if 8 * (i div WIDTH_PIXELS) = 40 then k < 3 else True) \<and>
           black_at black_image (i mod WIDTH_PIXELS) (8 * (i div WIDTH_PIXELS) + k)"
    by blast
  have "bit (out ! 0) 7"
    using bits [rule_format, of 0 7] by (simp add: WIDTH_PIXELS_def black_at_def black_image_def)
  moreover have "bit (out ! 959) 2"
    using bits [rule_format, of 959 2] by (simp add: WIDTH_PIXELS_def black_at_def black_image_def)
  moreover have "\<not> bit (out ! 959) 3"
    using bits [rule_format, of 959 3] by (simp add: WIDTH_PIXELS_def black_at_def black_image_def)
  ultimately show ?thesis using out by blast
qed

text \<open>
  C7, as the code has it. A black image of the device's size gives \<open>0xFF\<close> in the five
  full bands (bytes 0..799) and \<open>0x07\<close> in the band at row 40 (bytes 800..959); a white
  one gives 960 bytes \<open>0x00\<close>, which is the complement of the black output on the bits
  the encoder reads only.
\<close>

theorem ImageToLPBM_black_white:
  assumes "im_width b = WIDTH_PIXELS" and "im_height b = HEIGHT_PIXELS"
    and "im_width w = WIDTH_PIXELS" and "im_height w = HEIGHT_PIXELS"
    and "\<forall>x<WIDTH_PIXELS. \<forall>y<HEIGHT_PIXELS. im_pixel b x y = 0"
    and "\<forall>x<WIDTH_PIXELS. \<forall>y<HEIGHT_PIXELS. im_pixel w x y = 255"
  shows "\<exists>bout wout.
      ImageToLPBM b = Inr bout \<and> ImageToLPBM w = Inr wout \<and>
      bout = replicate 800 255 @ replicate 160 7 \<and> wout = replicate 960 0 \<and>
      length bout = WIDTH_PIXELS * HEIGHT_PIXELS div 8 \<and>
      length wout = WIDTH_PIXELS * HEIGHT_PIXELS div 8 \<and>
      (\<forall>i<960. wout ! i = NOT (bout ! i) AND (if i < 800 then 255 else 7))"
proof -
  have "ImageToLPBM b = Inr (replicate 800 255 @ replicate 160 7)"
    using assms(1,2,5) by (intro encode_all_black) (simp_all add: WIDTH_PIXELS_def HEIGHT_PIXELS_def)
  moreover have "ImageToLPBM w = Inr (replicate 960 0)"
    using assms(3,4,6) by (intro encode_none_black) (simp_all add: WIDTH_PIXELS_def HEIGHT_PIXELS_def)
  moreover have "\<forall>i<960. replicate 960 (0 :: byte) ! i =
      NOT ((replicate 800 255 @ replicate 160 7) ! i) AND (if i < 800 then 255 else 7)"
    by (simp add: nth_append)
  ultimately show ?thesis
    by (simp add: WIDTH_PIXELS_def HEIGHT_PIXELS_def)
qed

theorem ImageToLPBM_black_white_witness:
  "ImageToLPBM black_image = Inr (replicate 800 255 @ replicate 160 7) \<and>
   ImageToLPBM white_image = Inr (replicate 960 0)"
proof -
  have "\<exists>bout wout.
      ImageToLPBM black_image = Inr bout \<and> ImageToLPBM white_image = Inr wout \<and>
      bout = replicate 800 255 @ replicate 160 7 \<and> wout = replicate 960 0 \<and>
      length bout = WIDTH_PIXELS * HEIGHT_PIXELS div 8 \<and>
      length wout = WIDTH_PIXELS * HEIGHT_PIXELS div 8 \<and>
      (\<forall>i<960. wout ! i = NOT (bout ! i) AND (if i < 800 then 255 else 7))"
    by (rule ImageToLPBM_black_white)
       (simp_all add: black_image_def white_image_def WIDTH_PIXELS_def HEIGHT_PIXELS_def)
  then show ?thesis by blast
qed

text \<open>
  C7 as stated fails at the black and the white image of the device's size: the black
  output is neither all \<open>0x00\<close> nor all \<open>0xFF\<close>, and the white output is not its
  byte-wise complement.
\<close>

theorem ImageToLPBM_black_white_counterexample:
  "ImageToLPBM black_image = Inr (replicate 800 255 @ replicate 160 7) \<and>
   ImageToLPBM white_image = Inr (replicate 960 0) \<and>
   replicate 800 255 @ replicate 160 7 \<noteq> replicate 960 (255 :: byte) \<and>
   replicate 800 255 @ replicate 160 7 \<noteq> replicate 960 (0 :: byte) \<and>
   map NOT (replicate 800 255 @ replicate 160 (7 :: byte)) \<noteq> replicate 960 0"
proof -
  have "ImageToLPBM black_image = Inr (replicate 800 255 @ replicate 160 7)"
    by (rule encode_all_black) (simp_all add: black_image_def)
  moreover have "ImageToLPBM white_image = Inr (replicate 960 0)"
    by (rule encode_none_black) (simp_all add: white_image_def)
  ultimately show ?thesis
    using replicate_black_differs by simp
qed

section \<open>Properties of the event synthesizer\<close>

text \<open>The events one round of either loop writes, by the old and the new state of the key.\<close>

lemma uinput_write_codes [simp]:
  "uinput (write_codes binding v s) = uinput s @ map (\<lambda>code. UWrite EV_KEY code v) binding"
  by (simp add: write_codes_def)

lemma lastKeyState_write_codes [simp]:
  "lastKeyState (write_codes binding v s) = lastKeyState s"
  by (simp add: write_codes_def)

lemma lastKeyState_synthesizeKey:
  "lastKeyState (synthesizeKey kt prof report key s) =
     (lastKeyState s)(NormalKey key \<mapsto> testReport kt key report)"
  by (simp add: synthesizeKey_def Let_def)

lemma wasPressed_synthesizeKey:
  "wasPressed_of (synthesizeKey kt prof report key s) (NormalKey k) =
     (if k = key then testReport kt key report else wasPressed_of s (NormalKey k))"
  by (simp add: wasPressed_of_def lastKeyState_synthesizeKey)

lemma uinput_synthesizeKey:
  "uinput (synthesizeKey kt prof report key s) =
     uinput s @
       (if \<not> wasPressed_of s (NormalKey key) \<and> testReport kt key report
        then map (\<lambda>code. UWrite EV_KEY code 1) (keyBinding prof (NormalKey key))
        else if wasPressed_of s (NormalKey key) \<and> \<not> testReport kt key report
        then map (\<lambda>code. UWrite EV_KEY code 0) (keyBinding prof (NormalKey key))
        else [])"
  by (simp add: synthesizeKey_def Let_def)

lemma emitted_synthesizeKey:
  "emitted (synthesizeKey kt prof report key) s =
       (if \<not> wasPressed_of s (NormalKey key) \<and> testReport kt key report
        then map (\<lambda>code. UWrite EV_KEY code 1) (keyBinding prof (NormalKey key))
        else if wasPressed_of s (NormalKey key) \<and> \<not> testReport kt key report
        then map (\<lambda>code. UWrite EV_KEY code 0) (keyBinding prof (NormalKey key))
        else [])"
  by (simp add: emitted_def uinput_synthesizeKey)

lemma wasPressed_fold_keys:
  "wasPressed_of (fold (synthesizeKey kt prof report) ks s) (NormalKey k) =
     (if k \<in> set ks then testReport kt k report else wasPressed_of s (NormalKey k))"
  by (induction ks arbitrary: s) (auto simp add: wasPressed_synthesizeKey)

lemma lastKeyState_fold_keys:
  "k \<in> set ks \<Longrightarrow>
     lastKeyState (fold (synthesizeKey kt prof report) ks s) (NormalKey k) =
       Some (testReport kt k report)"
proof (induction ks arbitrary: s rule: rev_induct)
  case Nil
  then show ?case by simp
next
  case (snoc x xs)
  then show ?case by (auto simp add: lastKeyState_synthesizeKey)
qed

lemma uinput_fold_keys_steady:
  "\<forall>k\<in>set ks. wasPressed_of s (NormalKey k) = testReport kt k report \<Longrightarrow>
     uinput (fold (synthesizeKey kt prof report) ks s) = uinput s"
proof (induction ks arbitrary: s)
  case Nil
  then show ?case by simp
next
  case (Cons k ks)
  have "\<forall>k'\<in>set ks.
      wasPressed_of (synthesizeKey kt prof report k s) (NormalKey k') = testReport kt k' report"
    using Cons.prems by (simp add: wasPressed_synthesizeKey)
  then have "uinput (fold (synthesizeKey kt prof report) ks (synthesizeKey kt prof report k s)) =
      uinput (synthesizeKey kt prof report k s)"
    by (rule Cons.IH)
  also have "\<dots> = uinput s"
    using Cons.prems by (simp add: uinput_synthesizeKey)
  finally show ?case by simp
qed

lemma wasPressed_synthesizeKeys:
  "key \<in> set (G13NormalKeys kt) \<Longrightarrow>
     wasPressed_of (synthesizeKeys kt prof report s) (NormalKey key) = testReport kt key report"
  by (simp add: synthesizeKeys_def wasPressed_fold_keys)

text \<open>
  With distinct keys, what \<open>_synthesizeKeys\<close> writes is, key by key in table order,
  what the round of each key writes.
\<close>

lemma uinput_fold_keys:
  "distinct ks \<Longrightarrow>
     uinput (fold (synthesizeKey kt prof report) ks s) =
       uinput s @ concat (map (\<lambda>k. emitted (synthesizeKey kt prof report k) s) ks)"
proof (induction ks arbitrary: s)
  case Nil
  then show ?case by simp
next
  case (Cons k ks)
  let ?s1 = "synthesizeKey kt prof report k s"
  have same: "emitted (synthesizeKey kt prof report k') ?s1 =
      emitted (synthesizeKey kt prof report k') s" if "k' \<in> set ks" for k'
  proof -
    from that Cons.prems have "k' \<noteq> k" by auto
    then show ?thesis
      by (simp add: emitted_synthesizeKey wasPressed_synthesizeKey)
  qed
  have "uinput (fold (synthesizeKey kt prof report) ks ?s1) =
      uinput ?s1 @ concat (map (\<lambda>k. emitted (synthesizeKey kt prof report k) ?s1) ks)"
    using Cons.prems by (intro Cons.IH) simp
  also have "map (\<lambda>k. emitted (synthesizeKey kt prof report k) ?s1) ks =
      map (\<lambda>k. emitted (synthesizeKey kt prof report k) s) ks"
    using same by simp
  also have "uinput ?s1 = uinput s @ emitted (synthesizeKey kt prof report k) s"
    by (simp add: emitted_synthesizeKey uinput_synthesizeKey)
  finally show ?case by simp
qed

lemma uinput_synthesizeKeys:
  assumes "G13NormalKeys kt = before @ X # after" and "distinct (G13NormalKeys kt)"
  shows "uinput (synthesizeKeys kt prof report s) =
     uinput s @ rounds kt prof report s before @
       emitted (synthesizeKey kt prof report X) s @ rounds kt prof report s after"
proof -
  have "uinput (fold (synthesizeKey kt prof report) (G13NormalKeys kt) s) =
      uinput s @ concat (map (\<lambda>k. emitted (synthesizeKey kt prof report k) s) (G13NormalKeys kt))"
    using assms(2) by (rule uinput_fold_keys)
  also have "concat (map (\<lambda>k. emitted (synthesizeKey kt prof report k) s) (G13NormalKeys kt)) =
      rounds kt prof report s before @
        emitted (synthesizeKey kt prof report X) s @ rounds kt prof report s after"
    by (simp add: assms(1) rounds_def)
  finally show ?thesis
    by (simp add: synthesizeKeys_def)
qed

lemma lastKeyState_synthesizeRegion:
  "lastKeyState (synthesizeRegion prof jx jy entry s) (NormalKey k) = lastKeyState s (NormalKey k)"
  by (cases entry) (simp add: synthesizeRegion_def Let_def)

lemma lastKeyState_fold_regions:
  "lastKeyState (fold (synthesizeRegion prof jx jy) rs s) (NormalKey k) = lastKeyState s (NormalKey k)"
  by (induction rs arbitrary: s) (simp_all add: lastKeyState_synthesizeRegion)

lemma synthesizeStick_keeps_keys:
  "synthesizeStick div255 prof report s = Inr s' \<Longrightarrow>
     lastKeyState s' (NormalKey k) = lastKeyState s (NormalKey k)"
  by (auto simp add: synthesizeStick_def Let_def lastKeyState_fold_regions
      split: list.splits if_splits)

text \<open>
  C10. After one call of \<open>_synthesizeKeys\<close> the entry of every key of the table is
  the key's bit in the report, whatever the bindings are; a second call on the same
  report, under any profile, writes nothing to the virtual input device.
\<close>

theorem synthesizeKeys_records_report:
  "(\<forall>key\<in>set (G13NormalKeys kt).
      lastKeyState (synthesizeKeys kt prof report s) (NormalKey key) =
        Some (testReport kt key report)) \<and>
   emitted (synthesizeKeys kt prof' report) (synthesizeKeys kt prof report s) = []"
proof
  show "\<forall>key\<in>set (G13NormalKeys kt).
      lastKeyState (synthesizeKeys kt prof report s) (NormalKey key) =
        Some (testReport kt key report)"
    by (simp add: synthesizeKeys_def lastKeyState_fold_keys)
next
  let ?s1 = "synthesizeKeys kt prof report s"
  have "\<forall>k\<in>set (G13NormalKeys kt). wasPressed_of ?s1 (NormalKey k) = testReport kt k report"
    by (simp add: wasPressed_synthesizeKeys)
  then have "uinput (fold (synthesizeKey kt prof' report) (G13NormalKeys kt) ?s1) = uinput ?s1"
    by (rule uinput_fold_keys_steady)
  then show "emitted (synthesizeKeys kt prof' report) ?s1 = []"
    by (simp add: emitted_def synthesizeKeys_def)
qed


theorem synthesizeKeys_records_report_witness:
  "lastKeyState (synthesizeKeys demo_keys demo_profile (report_with 5) init) (NormalKey 0) = Some True \<and>
   lastKeyState (synthesizeKeys demo_keys demo_profile (report_with 5) init) (NormalKey 1) = Some False \<and>
   emitted (synthesizeKeys demo_keys demo_profile (report_with 5))
     (synthesizeKeys demo_keys demo_profile (report_with 5) init) = []"
  using synthesizeKeys_records_report [of demo_keys demo_profile "report_with 5" init demo_profile]
  by (simp add: demo_keys_def report_with_def)

text \<open>
  C5, as the code has it. Five calls of \<open>_synthesizeKeys\<close> on reports in which the bit
  of key \<open>X\<close> is 0, 0, 1, 1, 0, from any manager and under any profiles that bind \<open>X\<close>
  to \<open>binding\<close> at the first, third and fifth report. What each call appends to the
  virtual input device is, in table order, what the rounds of the keys before \<open>X\<close>
  write, then the events of \<open>X\<close>, then what the rounds of the keys after \<open>X\<close> write.
  The events of \<open>X\<close> are: a key-down for each code of the binding at the third report,
  a key-up for the same codes at the fifth, nothing at the second and fourth; at the
  first report nothing when \<open>X\<close> is not recorded as pressed (as in a new \<open>Manager\<close>),
  and a key-up for each code when it is. Between two calls \<open>run\<close> also calls
  \<open>_synthesizeStick\<close> and \<open>syn\<close>, which leave the entries of the keys alone
  (\<open>synthesizeStick_keeps_keys\<close>).
\<close>

theorem synthesizeKeys_edge_triggered:
  assumes "G13NormalKeys kt = before @ X # after" and "distinct (G13NormalKeys kt)"
    and "\<not> testReport kt X r1" and "\<not> testReport kt X r2" and "testReport kt X r3"
    and "testReport kt X r4" and "\<not> testReport kt X r5"
    and "keyBinding p1 (NormalKey X) = binding" and "keyBinding p3 (NormalKey X) = binding"
    and "keyBinding p5 (NormalKey X) = binding"
    and "s1 = synthesizeKeys kt p1 r1 s0" and "s2 = synthesizeKeys kt p2 r2 s1"
    and "s3 = synthesizeKeys kt p3 r3 s2" and "s4 = synthesizeKeys kt p4 r4 s3"
  shows "uinput (synthesizeKeys kt p1 r1 s0) =
       uinput s0 @ rounds kt p1 r1 s0 before @
         (if wasPressed_of s0 (NormalKey X) then map (\<lambda>code. UWrite EV_KEY code 0) binding
          else []) @
         rounds kt p1 r1 s0 after \<and>
     uinput (synthesizeKeys kt p2 r2 s1) =
       uinput s1 @ rounds kt p2 r2 s1 before @ [] @ rounds kt p2 r2 s1 after \<and>
     uinput (synthesizeKeys kt p3 r3 s2) =
       uinput s2 @ rounds kt p3 r3 s2 before @
         map (\<lambda>code. UWrite EV_KEY code 1) binding @ rounds kt p3 r3 s2 after \<and>
     uinput (synthesizeKeys kt p4 r4 s3) =
       uinput s3 @ rounds kt p4 r4 s3 before @ [] @ rounds kt p4 r4 s3 after \<and>
     uinput (synthesizeKeys kt p5 r5 s4) =
       uinput s4 @ rounds kt p5 r5 s4 before @
         map (\<lambda>code. UWrite EV_KEY code 0) binding @ rounds kt p5 r5 s4 after"
proof -
  have X: "X \<in> set (G13NormalKeys kt)"
    using assms(1) by simp
  have split: "uinput (synthesizeKeys kt prof report s) =
      uinput s @ rounds kt prof report s before @
        emitted (synthesizeKey kt prof report X) s @ rounds kt prof report s after"
    for prof report s
    using assms(1,2) by (rule uinput_synthesizeKeys)
  have w1: "wasPressed_of s1 (NormalKey X) = testReport kt X r1"
    and w2: "wasPressed_of s2 (NormalKey X) = testReport kt X r2"
    and w3: "wasPressed_of s3 (NormalKey X) = testReport kt X r3"
    and w4: "wasPressed_of s4 (NormalKey X) = testReport kt X r4"
    using X assms(11-14) by (simp_all add: wasPressed_synthesizeKeys)
  have "emitted (synthesizeKey kt p1 r1 X) s0 =
      (if wasPressed_of s0 (NormalKey X) then map (\<lambda>code. UWrite EV_KEY code 0) binding else [])"
    using assms(3,8) by (simp add: emitted_synthesizeKey)
  moreover have "emitted (synthesizeKey kt p2 r2 X) s1 = []"
    using assms(3,4) w1 by (simp add: emitted_synthesizeKey)
  moreover have "emitted (synthesizeKey kt p3 r3 X) s2 = map (\<lambda>code. UWrite EV_KEY code 1) binding"
    using assms(4,5,9) w2 by (simp add: emitted_synthesizeKey)
  moreover have "emitted (synthesizeKey kt p4 r4 X) s3 = []"
    using assms(5,6) w3 by (simp add: emitted_synthesizeKey)
  moreover have "emitted (synthesizeKey kt p5 r5 X) s4 = map (\<lambda>code. UWrite EV_KEY code 0) binding"
    using assms(6,7,10) w4 by (simp add: emitted_synthesizeKey)
  ultimately show ?thesis
    by (simp only: split)
qed

lemmas eval_keys = synthesizeKeys_def synthesizeKey_def demo_keys_def demo_profile_def
  report_with_def init_def wasPressed_of_def write_codes_def rounds_def emitted_def Let_def

theorem synthesizeKeys_edge_triggered_witness:
  "uinput (synthesizeKeys demo_keys demo_profile (report_with 0) init) = [] \<and>
   uinput (synthesizeKeys demo_keys demo_profile (report_with 2)
      (synthesizeKeys demo_keys demo_profile (report_with 0)
        (synthesizeKeys demo_keys demo_profile (report_with 0) init))) =
     [UWrite EV_KEY 3 1] \<and>
   uinput (synthesizeKeys demo_keys demo_profile (report_with 0)
      (synthesizeKeys demo_keys demo_profile (report_with 2)
        (synthesizeKeys demo_keys demo_profile (report_with 2)
          (synthesizeKeys demo_keys demo_profile (report_with 0)
            (synthesizeKeys demo_keys demo_profile (report_with 0) init))))) =
     [UWrite EV_KEY 3 1, UWrite EV_KEY 3 0]"
proof -
  have table: "G13NormalKeys demo_keys = [0] @ 1 # [2]" and dist: "distinct (G13NormalKeys demo_keys)"
    by (simp_all add: demo_keys_def)
  have up: "\<not> testReport demo_keys 1 (report_with 0)"
    by (simp add: demo_keys_def report_with_def)
  have down: "testReport demo_keys 1 (report_with 2)"
    by (simp add: demo_keys_def report_with_def)
  have binding: "keyBinding demo_profile (NormalKey (1::nat)) = [3]"
    by (simp add: demo_profile_def)
  from synthesizeKeys_edge_triggered [OF table dist up up down down up binding binding binding
      refl refl refl refl, of init demo_profile demo_profile]
  show ?thesis
    by (simp add: eval_keys)
qed

text \<open>
  C5 as stated fails when the five reports follow one in which \<open>X\<close> was pressed: the
  first of the five, where the bit of key 1 is 0, writes a key-up, and the six reports
  1, 0, 0, 1, 1, 0 write four groups of events, three of them within the five.
\<close>

theorem synthesizeKeys_edge_counterexample:
  "\<not> testReport demo_keys 1 (report_with 0) \<and>
   uinput (synthesizeKeys demo_keys demo_profile (report_with 2) init) = [UWrite EV_KEY 3 1] \<and>
   uinput (synthesizeKeys demo_keys demo_profile (report_with 0)
      (synthesizeKeys demo_keys demo_profile (report_with 2) init)) =
     [UWrite EV_KEY 3 1, UWrite EV_KEY 3 0] \<and>
   uinput (synthesizeKeys demo_keys demo_profile (report_with 0)
      (synthesizeKeys demo_keys demo_profile (report_with 2)
        (synthesizeKeys demo_keys demo_profile (report_with 2)
          (synthesizeKeys demo_keys demo_profile (report_with 0)
            (synthesizeKeys demo_keys demo_profile (report_with 0)
              (synthesizeKeys demo_keys demo_profile (report_with 2) init)))))) =
     [UWrite EV_KEY 3 1, UWrite EV_KEY 3 0, UWrite EV_KEY 3 1, UWrite EV_KEY 3 0]"
  by (simp add: eval_keys)

text \<open>
  C4. Called while the state is not \<open>FOUND\<close>, each of \<open>setLedsMode\<close>,
  \<open>setBacklightColor\<close> and \<open>setLCDBuffer\<close> raises \<open>StateError\<close> and leaves the manager,
  and so the command queue, as it was.
\<close>

theorem mutators_guarded:
  assumes "state s \<noteq> FOUND"
  shows "setLedsMode leds s = (Inl StateError, s) \<and>
     setBacklightColor r g b s = (Inl StateError, s) \<and>
     setLCDBuffer buffer s = (Inl StateError, s) \<and>
     commandQueue (snd (setLedsMode leds s)) = commandQueue s \<and>
     commandQueue (snd (setBacklightColor r g b s)) = commandQueue s \<and>
     commandQueue (snd (setLCDBuffer buffer s)) = commandQueue s"
  using assms
  by (simp add: setLedsMode_def setBacklightColor_def setLCDBuffer_def ensureState_def)

theorem mutators_guarded_witness:
  "setLedsMode 1 (init :: nat manager) = (Inl StateError, init) \<and>
   setBacklightColor 255 0 0 (init :: nat manager) = (Inl StateError, init) \<and>
   setLCDBuffer (BytesBuffer []) (init :: nat manager) = (Inl StateError, init) \<and>
   commandQueue (snd (setLedsMode 1 (init :: nat manager))) = []"
proof -
  have "state (init :: nat manager) \<noteq> FOUND"
    by (simp add: init_def)
  from mutators_guarded [OF this, of 1 255 0 0 "BytesBuffer []"] show ?thesis
    by (simp add: init_def)
qed

text \<open>
  C9. The containment test of the stick's \<open>KEYS\<close> mode includes all four edges: for
  the region \<open>(0.2, 0.2, 0.8, 0.8)\<close> the points \<open>(0.2, 0.5)\<close> and \<open>(0.8, 0.8)\<close> are
  inside and \<open>(0.81, 0.5)\<close> is outside; in any linear order, a point whose coordinate
  equals the region's minimum or maximum on one axis, and lies in the region's range
  on the other, is inside.
\<close>

theorem inRegion_inclusive:
  fixes x y r0 r1 r2 r3 :: "'a::linorder"
  shows "inRegion (0.2 :: real) 0.5 (0.2, 0.2, 0.8, 0.8) \<and>
     inRegion (0.8 :: real) 0.8 (0.2, 0.2, 0.8, 0.8) \<and>
     \<not> inRegion (0.81 :: real) 0.5 (0.2, 0.2, 0.8, 0.8) \<and>
     (r0 \<le> r2 \<and> r1 \<le> y \<and> y \<le> r3 \<longrightarrow>
        inRegion r0 y (r0, r1, r2, r3) \<and> inRegion r2 y (r0, r1, r2, r3)) \<and>
     (r1 \<le> r3 \<and> r0 \<le> x \<and> x \<le> r2 \<longrightarrow>
        inRegion x r1 (r0, r1, r2, r3) \<and> inRegion x r3 (r0, r1, r2, r3))"
  by (simp add: inRegion_def)

theorem inRegion_inclusive_witness:
  "inRegion (1 :: int) 5 (1, 2, 7, 9) \<and> inRegion (7 :: int) 5 (1, 2, 7, 9) \<and>
   inRegion (3 :: int) 2 (1, 2, 7, 9) \<and> inRegion (3 :: int) 9 (1, 2, 7, 9)"
  using inRegion_inclusive [of "1 :: int" 7 2 5 9 3] by simp

text \<open>
  The same through \<open>_synthesizeStick\<close> in \<open>KEYS\<close> mode with one region: when the
  division gives the region's minimum or maximum for the stick's x byte, and a value in
  the region's range for the y byte, the region is recorded as pressed.
\<close>

lemma synthesizeStick_on_edge:
  assumes "stickMode prof = KEYS" and "stickRegions prof = [(name, (r0, r1, r2, r3))]"
    and "div255 (uint bx) = r0 \<or> div255 (uint bx) = r2" and "r0 \<le> r2"
    and "r1 \<le> div255 (uint by)" and "div255 (uint by) \<le> r3"
  shows "\<exists>s'. synthesizeStick div255 prof [b0, bx, by, b3, b4, b5, b6, b7] s = Inr s' \<and>
     lastKeyState s' (RegionName name) = Some True"
  using assms
  by (auto simp add: synthesizeStick_def synthesizeRegion_def inRegion_def Let_def)

section \<open>Properties of the session state machine\<close>

lemma same_session_synthesizeKey: "same_session s (synthesizeKey kt prof report key s)"
  by (simp add: same_session_def synthesizeKey_def write_codes_def Let_def)

lemma same_session_fold_keys: "same_session s (fold (synthesizeKey kt prof report) ks s)"
proof (induction ks arbitrary: s)
  case Nil
  show ?case by (simp add: same_session_def)
next
  case (Cons k ks)
  have "same_session (synthesizeKey kt prof report k s)
      (fold (synthesizeKey kt prof report) ks (synthesizeKey kt prof report k s))"
    by (rule Cons.IH)
  with same_session_synthesizeKey [of s kt prof report k] show ?case
    by (simp add: same_session_def)
qed

lemma same_session_synthesizeRegion: "same_session s (synthesizeRegion prof jx jy entry s)"
  by (cases entry) (simp add: same_session_def synthesizeRegion_def write_codes_def Let_def)

lemma same_session_fold_regions: "same_session s (fold (synthesizeRegion prof jx jy) rs s)"
proof (induction rs arbitrary: s)
  case Nil
  show ?case by (simp add: same_session_def)
next
  case (Cons r rs)
  have "same_session (synthesizeRegion prof jx jy r s)
      (fold (synthesizeRegion prof jx jy) rs (synthesizeRegion prof jx jy r s))"
    by (rule Cons.IH)
  with same_session_synthesizeRegion [of s prof jx jy r] show ?case
    by (simp add: same_session_def)
qed

lemma same_session_synthesizeStick:
  "synthesizeStick div255 prof report s = Inr s' \<Longrightarrow> same_session s s'"
  using same_session_fold_regions [of s prof]
  by (auto simp add: synthesizeStick_def Let_def same_session_def split: list.splits if_splits)

lemma same_session_synthesize:
  assumes "synthesize kt div255 prof s = Inr s'"
  shows "same_session s s'"
proof -
  from assms obtain s1 where
    s1: "synthesizeStick div255 prof (reportBuffer s)
           (synthesizeKeys kt prof (reportBuffer s) s) = Inr s1"
    and s': "s' = s1\<lparr>uinput := uinput s1 @ [USyn]\<rparr>"
    by (auto simp add: synthesize_def split: sum.splits)
  have "same_session s (synthesizeKeys kt prof (reportBuffer s) s)"
    unfolding synthesizeKeys_def by (rule same_session_fold_keys)
  moreover from s1 have "same_session (synthesizeKeys kt prof (reportBuffer s) s) s1"
    by (rule same_session_synthesizeStick)
  ultimately show ?thesis
    by (simp add: same_session_def s')
qed

lemma poll_read_state [simp]: "state (poll_read kt w s) = state s"
  and poll_read_device [simp]: "device (poll_read kt w s) = device s"
  and poll_read_queue [simp]: "commandQueue (poll_read kt w s) = commandQueue s"
  and poll_read_usb_log [simp]: "usb_log (poll_read kt w s) = usb_log s"
  by (auto simp add: poll_read_def Let_def same_session_def
      split: option.splits read_result.splits sum.splits
      dest!: same_session_synthesize)

lemma poll_read_pc:
  "device s \<noteq> None \<Longrightarrow> pc (poll_read kt w s) \<in> {ProcessCommands, RunLoop} \<union> range Crashed"
  by (auto simp add: poll_read_def Let_def same_session_def
      split: option.splits read_result.splits sum.splits)

lemma process_command_state [simp]: "state (process_command w s) = state s"
  and process_command_device [simp]: "device (process_command w s) = device s"
  by (auto simp add: process_command_def split: list.splits option.splits sum.splits)

lemma process_command_pc:
  "device s \<noteq> None \<Longrightarrow>
     pc (process_command w s) \<in> {ProcessCommands, RunLoop, PollLoop} \<union> range Crashed"
  by (auto simp add: process_command_def split: list.splits option.splits sum.splits)

lemma session_inv_init: "session_inv init"
  by (simp add: session_inv_def init_def)

text \<open>
  Every step of the thread and every call of another thread keeps the invariant.
\<close>

lemma session_inv_thread_step:
  assumes "session_inv s"
  shows "session_inv (thread_step kt w s)"
proof (cases "pc s")
  case PollRead
  with assms have d: "device s \<noteq> None" and st: "state s \<noteq> DISCOVERING"
    by (simp_all add: session_inv_def)
  from poll_read_pc [OF d, of kt w] show ?thesis
    using d st PollRead by (auto simp add: session_inv_def thread_step_def)
next
  case ProcessCommands
  with assms have d: "device s \<noteq> None" and st: "state s \<noteq> DISCOVERING"
    by (simp_all add: session_inv_def)
  from process_command_pc [OF d, of w] show ?thesis
    using d st ProcessCommands by (auto simp add: session_inv_def thread_step_def)
next
  case (ResetCall c)
  with assms show ?thesis
    by (cases c; cases "state s")
       (auto simp add: session_inv_def thread_step_def split: option.splits)
next
  case (ResetClear c)
  with assms show ?thesis
    by (cases c; cases "state s")
       (auto simp add: session_inv_def thread_step_def after_reset_def)
qed (use assms in \<open>cases "state s";
      auto simp add: session_inv_def thread_step_def split: find_result.splits option.splits\<close>)+

lemma session_inv_api:
  assumes "session_inv s"
  shows "session_inv (snd (api c s))"
proof -
  have "pc (snd (api c s)) = pc s \<and> device (snd (api c s)) = device s \<and>
      (state (snd (api c s)) = state s \<or> state (snd (api c s)) = SHUTDOWN)"
    by (cases c)
       (auto simp add: shutdown_def setLedsMode_def setBacklightColor_def setLCDBuffer_def
          queue_put_def split: sum.splits)
  with assms show ?thesis
    by (cases "pc s") (auto simp add: session_inv_def split: reset_caller.splits)
qed

lemma reachable_session_inv: "reachable kt s \<Longrightarrow> session_inv s"
proof (induction rule: reachable.induct)
  case reachable_init
  show ?case by (rule session_inv_init)
next
  case (reachable_step s ev)
  then show ?case
    by (cases ev) (simp_all add: session_inv_thread_step session_inv_api)
qed


lemma reachable_run: "reachable kt s \<Longrightarrow> reachable kt (run kt evs s)"
proof (induction evs arbitrary: s)
  case Nil
  then show ?case by (simp add: run_def)
next
  case (Cons ev evs)
  from Cons.prems have "reachable kt (step kt ev s)"
    by (rule reachable_step)
  then have "reachable kt (run kt evs (step kt ev s))"
    by (rule Cons.IH)
  then show ?case by (simp add: run_def)
qed

lemmas eval_run = run_def eval_nat_numeral thread_step_def init_def quiet_def shutdown_def
  poll_read_def process_command_def after_reset_def ETIMEDOUT_def Let_def
  setLedsMode_def setBacklightColor_def setLCDBuffer_def ensureState_def queue_put_def
  as_array_def header_plus_def detach_calls_def

text \<open>
  Concrete runs, evaluated: discovery up to \<open>FOUND\<close>; the moment after
  \<open>usb.core.find\<close> returned the device; the moment after the reset that follows a
  failed read; recovery after a failed read and after a failed
  command, with two commands queued.
\<close>

lemma to_found_run:
  "run demo_keys to_found init =
     init\<lparr>state := FOUND, device := Some UsbDevice, usb_log := [DevReset, IsKernelDriverActive, FindDescriptor, SetConfiguration],
       pc := PollLoop\<rparr>"
  by (simp add: to_found_def eval_run)

lemma claiming_run:
  "run demo_keys (replicate 6 (Tick quiet)) init =
     init\<lparr>device := Some UsbDevice, pc := DiscoverFindLoop\<rparr>"
  by (simp add: eval_run)

lemma rediscover_run:
  "run demo_keys (to_found @ [Tick quiet, Tick io_error] @ replicate 4 (Tick quiet)) init =
     init\<lparr>state := FOUND, device := None,
       usb_log := [DevReset, IsKernelDriverActive, FindDescriptor, SetConfiguration, DevReset, DisposeResources],
       pc := DiscoverSetState\<rparr>"
  by (simp add: to_found_def io_error_def eval_run)

lemma read_error_run:
  "run demo_keys (to_found @ two_commands @ [Tick quiet, Tick io_error] @ replicate 16 (Tick quiet)) init =
     init\<lparr>state := FOUND, device := Some UsbDevice,
       usb_log := [DevReset, IsKernelDriverActive, FindDescriptor, SetConfiguration, DevReset, DisposeResources, DevReset, IsKernelDriverActive, FindDescriptor, SetConfiguration,
         CtrlTransfer 0x21 9 0x305 0 [5, 1, 0, 0, 0], CtrlTransfer 0x21 9 0x307 0 [5, 1, 2, 3, 0]],
       pc := ProcessCommands\<rparr>"
  by (simp add: to_found_def two_commands_def io_error_def eval_run)

lemma command_error_run:
  "run demo_keys (to_found @ two_commands @ [Tick quiet, Tick quiet, Tick io_error] @ replicate 15 (Tick quiet)) init =
     init\<lparr>state := FOUND, device := Some UsbDevice,
       usb_log := [DevReset, IsKernelDriverActive, FindDescriptor, SetConfiguration, CtrlTransfer 0x21 9 0x305 0 [5, 1, 0, 0, 0],
         DevReset, DisposeResources, DevReset, IsKernelDriverActive, FindDescriptor, SetConfiguration,
         CtrlTransfer 0x21 9 0x307 0 [5, 1, 2, 3, 0]],
       pc := ProcessCommands\<rparr>"
  by (simp add: to_found_def two_commands_def io_error_def eval_run)


text \<open>
  The \<open>_reset()\<close> of line 220 is never reached: \<open>run\<close> leaves its loop only in
  \<open>SHUTDOWN\<close>, and line 219 asks for \<open>FOUND\<close>.
\<close>

lemma exit_reset_unreachable:
  "reachable kt s \<Longrightarrow> pc s \<noteq> ResetCall AfterExit \<and> pc s \<noteq> ResetClear AfterExit"
  by (auto dest!: reachable_session_inv simp add: session_inv_def)

lemma finished_in_shutdown:
  "reachable kt s \<Longrightarrow> pc s = Finished \<Longrightarrow> state s = SHUTDOWN"
  by (auto dest!: reachable_session_inv simp add: session_inv_def)

text \<open>
  C3, as the code has it. In every reachable state: a state \<open>FOUND\<close> without a device
  handle occurs only between the \<open>_reset()\<close> that starts a re-discovery and
  \<open>self._state = DISCOVERING\<close>; a handle held in state \<open>DISCOVERING\<close> occurs only in the
  claim phase of \<open>_discover\<close> (after \<open>usb.core.find\<close> returned a device, until
  \<open>self._state = FOUND\<close> or the reset after a failed claim); and while the thread reads
  reports or runs queued commands a handle is held.
\<close>

theorem device_state_relation:
  assumes "reachable kt s"
  shows "(state s = FOUND \<and> device s = None \<longrightarrow> pc s = DiscoverSetState) \<and>
     (state s = DISCOVERING \<and> device s \<noteq> None \<longrightarrow>
        pc s \<in> {DiscoverFindLoop, DiscoverClaim, DiscoverSetFound,
                 ResetCall AfterExcept, ResetClear AfterExcept}) \<and>
     (pc s \<in> {PollRead, ProcessCommands} \<longrightarrow> device s \<noteq> None)"
proof -
  from assms have inv: "session_inv s"
    by (rule reachable_session_inv)
  show ?thesis
  proof (cases "pc s")
    case (ResetCall c)
    with inv show ?thesis by (cases c) (auto simp add: session_inv_def)
  next
    case (ResetClear c)
    with inv show ?thesis by (cases c) (auto simp add: session_inv_def)
  qed (use inv in \<open>auto simp add: session_inv_def\<close>)
qed

theorem device_state_relation_witness:
  "pc (run demo_keys (to_found @ [Tick quiet]) init) = PollRead \<and>
   device (run demo_keys (to_found @ [Tick quiet]) init) \<noteq> None"
proof -
  have "reachable demo_keys (run demo_keys (to_found @ [Tick quiet]) init)"
    by (rule reachable_run) (rule reachable_init)
  moreover have "pc (run demo_keys (to_found @ [Tick quiet]) init) = PollRead"
    by (simp add: to_found_def eval_run)
  ultimately show ?thesis
    using device_state_relation [of demo_keys "run demo_keys (to_found @ [Tick quiet]) init"]
    by simp
qed

text \<open>
  C3 as stated fails in both directions. Six steps into discovery the device has been
  found and the state is still \<open>DISCOVERING\<close>; after a failed read, the reset has cleared
  the handle and the state is still \<open>FOUND\<close>.
\<close>

theorem device_state_counterexample:
  "reachable demo_keys (run demo_keys (replicate 6 (Tick quiet)) init) \<and>
   state (run demo_keys (replicate 6 (Tick quiet)) init) = DISCOVERING \<and>
   device (run demo_keys (replicate 6 (Tick quiet)) init) = Some UsbDevice \<and>
   reachable demo_keys
     (run demo_keys (to_found @ [Tick quiet, Tick io_error] @ replicate 4 (Tick quiet)) init) \<and>
   state (run demo_keys (to_found @ [Tick quiet, Tick io_error] @ replicate 4 (Tick quiet)) init) =
     FOUND \<and>
   device (run demo_keys (to_found @ [Tick quiet, Tick io_error] @ replicate 4 (Tick quiet)) init) =
     None"
proof -
  let ?a = "run demo_keys (replicate 6 (Tick quiet)) init"
  let ?b = "run demo_keys (to_found @ [Tick quiet, Tick io_error] @ replicate 4 (Tick quiet)) init"
  have "reachable demo_keys ?a" and "reachable demo_keys ?b"
    by (rule reachable_run, rule reachable_init)+
  moreover have "state ?a = DISCOVERING" and "device ?a = Some UsbDevice"
    unfolding claiming_run by (simp_all add: init_def)
  moreover have "state ?b = FOUND" and "device ?b = None"
    unfolding rediscover_run by simp_all
  ultimately show ?thesis by blast
qed

text \<open>
  C2, what the code does. \<open>shutdown()\<close> called at the head of the polling loop in
  \<open>FOUND\<close> with a device held: three steps later the thread has finished in
  \<open>SHUTDOWN\<close>, and nothing else has changed: the handle is still held and no
  \<open>reset\<close> or \<open>dispose_resources\<close> was issued.
\<close>

theorem shutdown_leaves_device:
  assumes "pc s = PollLoop" and "state s = FOUND" and "device s = Some d"
  shows "run kt [Call Call_shutdown, Tick w1, Tick w2, Tick w3] s =
     s\<lparr>state := SHUTDOWN, pc := Finished\<rparr>"
  using assms by (simp add: run_def thread_step_def shutdown_def)

theorem shutdown_leaves_device_witness:
  "run demo_keys (to_found @ [Call Call_shutdown, Tick quiet, Tick quiet, Tick quiet]) init =
     init\<lparr>state := SHUTDOWN, device := Some UsbDevice, usb_log := [DevReset, IsKernelDriverActive, FindDescriptor, SetConfiguration],
       pc := Finished\<rparr>"
proof -
  let ?s = "run demo_keys to_found init"
  have "pc ?s = PollLoop" and "state ?s = FOUND" and "device ?s = Some UsbDevice"
    by (simp_all add: to_found_run)
  then have "run demo_keys [Call Call_shutdown, Tick quiet, Tick quiet, Tick quiet] ?s =
      ?s\<lparr>state := SHUTDOWN, pc := Finished\<rparr>"
    by (rule shutdown_leaves_device)
  then show ?thesis
    by (simp add: run_def to_found_run [unfolded run_def])
qed

text \<open>
  Outside \<open>_processCommands\<close> no step of the thread touches the command queue.
\<close>

lemma thread_step_keeps_queue:
  "pc s \<noteq> ProcessCommands \<Longrightarrow> commandQueue (thread_step kt w s) = commandQueue s"
  by (cases "pc s")
     (auto simp add: thread_step_def poll_read_def Let_def same_session_def
        split: find_result.splits option.splits read_result.splits sum.splits
        dest!: same_session_synthesize)

text \<open>
  \<open>_processCommands\<close> with no failing transfer, on commands whose data is accepted, runs
  the whole queue in order.
\<close>

lemma drain_queue:
  assumes "pc s = ProcessCommands" and "device s = Some d"
    and "\<forall>w\<in>set ws. w_command w = None" and "length ws = length (commandQueue s)"
    and "\<forall>c\<in>set (commandQueue s). accepted c"
  shows "run kt (map Tick ws) s =
     s\<lparr>commandQueue := [], usb_log := usb_log s @ calls_of (commandQueue s),
       pc := ProcessCommands\<rparr>"
  using assms
proof (induction ws arbitrary: s)
  case Nil
  then show ?case by (simp add: run_def calls_of_def)
next
  case (Cons w ws)
  from Cons.prems(4) obtain c rest where q: "commandQueue s = c # rest"
    by (cases "commandQueue s") auto
  with Cons.prems(5) obtain call where call: "command_call c = Inr call"
    by (auto simp add: accepted_def split: sum.splits)
  let ?s1 = "s\<lparr>commandQueue := rest, usb_log := usb_log s @ [call], pc := ProcessCommands\<rparr>"
  have step1: "thread_step kt w s = ?s1"
    using Cons.prems q call by (simp add: thread_step_def process_command_def)
  have "run kt (map Tick ws) ?s1 =
      ?s1\<lparr>commandQueue := [], usb_log := usb_log ?s1 @ calls_of (commandQueue ?s1),
        pc := ProcessCommands\<rparr>"
    using Cons.prems q by (intro Cons.IH) simp_all
  then show ?case
    using step1 q call by (simp add: run_def calls_of_def)
qed

text \<open>
  From the \<open>break\<close> of the polling loop, in \<open>FOUND\<close> with a device held: five steps reset
  and release the device and set \<open>DISCOVERING\<close>; with the device found at once and
  claimed, and the next read timing out, fourteen steps lead to \<open>_processCommands\<close>.
  Nothing on the way touches the queue.
\<close>

lemma drop_back:
  assumes "pc s = RunLoop" and "state s = FOUND" and "device s = Some d"
  shows "run kt (replicate 5 (Tick a)) s =
     s\<lparr>state := DISCOVERING, device := None,
       usb_log := usb_log s @ [DevReset, DisposeResources], pc := DiscoverLoop\<rparr>"
  using assms by (simp add: run_def eval_nat_numeral thread_step_def after_reset_def)

lemma rediscover_found:
  assumes "pc s = RunLoop" and "state s = FOUND" and "device s = Some d"
    and "w_find wfind = FindDevice" and "w_claim wclaim = ClaimOk active"
    and "w_read wread = ReadRaises ETIMEDOUT"
  shows "run kt (rediscover a wfind wclaim wread) s =
     s\<lparr>device := Some UsbDevice,
       usb_log := usb_log s @ [DevReset, DisposeResources] @ claim_calls (ClaimOk active),
       pc := ProcessCommands\<rparr>"
  using assms
  by (simp add: rediscover_def run_def thread_step_def after_reset_def poll_read_def)

lemma rediscover_and_drain:
  assumes "pc s = RunLoop" and "state s = FOUND" and "device s = Some d"
    and "w_find wfind = FindDevice" and "w_claim wclaim = ClaimOk active"
    and "w_read wread = ReadRaises ETIMEDOUT"
    and "\<forall>w\<in>set ws. w_command w = None" and "length ws = length (commandQueue s)"
    and "\<forall>c\<in>set (commandQueue s). accepted c"
  shows "run kt (rediscover a wfind wclaim wread @ map Tick ws) s =
     s\<lparr>device := Some UsbDevice, commandQueue := [],
       usb_log := usb_log s @ [DevReset, DisposeResources] @ claim_calls (ClaimOk active) @
         calls_of (commandQueue s),
       pc := ProcessCommands\<rparr>"
proof -
  let ?s1 = "s\<lparr>device := Some UsbDevice,
       usb_log := usb_log s @ [DevReset, DisposeResources] @ claim_calls (ClaimOk active),
       pc := ProcessCommands\<rparr>"
  have "run kt (rediscover a wfind wclaim wread @ map Tick ws) s =
      run kt (map Tick ws) (run kt (rediscover a wfind wclaim wread) s)"
    by (simp add: run_def)
  also have "run kt (rediscover a wfind wclaim wread) s = ?s1"
    using assms(1-6) by (rule rediscover_found)
  also have "run kt (map Tick ws) ?s1 =
      ?s1\<lparr>commandQueue := [], usb_log := usb_log ?s1 @ calls_of (commandQueue ?s1),
        pc := ProcessCommands\<rparr>"
    using assms(7-9) by (intro drain_queue [where d = UsbDevice]) simp_all
  finally show ?thesis by simp
qed

text \<open>
  C8, as the code has it. In \<open>FOUND\<close> with a device held:
  \<^item> no step of the thread outside \<open>_processCommands\<close> changes the command queue;
  \<^item> a read that raises a \<open>USBError\<close> other than a timeout leaves the polling loop with
    the queue untouched; five steps later the device has been reset and released and the
    state is \<open>DISCOVERING\<close>; and once the device is found and claimed again and a read
    has timed out, \<open>_processCommands\<close> makes the calls of all queued commands, in order;
  \<^item> a command whose transfer raises \<open>USBError\<close> has been dequeued and its call made once;
    the same re-discovery follows, and then the calls of the commands that were behind
    it, in order; the failed command's call is not made again.
  The commands are those whose data \<open>pyusb\<close> accepts, and their transfers after the
  recovery succeed.
\<close>

theorem io_error_keeps_queue:
  assumes "device s = Some d" and "state s = FOUND"
    and "w_find wfind = FindDevice" and "w_claim wclaim = ClaimOk active"
    and "w_read wread = ReadRaises ETIMEDOUT" and "\<forall>w\<in>set ws. w_command w = None"
  shows "(pc s \<noteq> ProcessCommands \<longrightarrow> commandQueue (thread_step kt w s) = commandQueue s) \<and>
     (pc s = PollRead \<and> w_read w = ReadRaises errno \<and> errno \<noteq> ETIMEDOUT \<longrightarrow>
        thread_step kt w s = s\<lparr>pc := RunLoop\<rparr> \<and>
        run kt (Tick w # replicate 5 (Tick a)) s =
          s\<lparr>state := DISCOVERING, device := None,
            usb_log := usb_log s @ [DevReset, DisposeResources], pc := DiscoverLoop\<rparr> \<and>
        ((\<forall>c\<in>set (commandQueue s). accepted c) \<and> length ws = length (commandQueue s) \<longrightarrow>
           run kt (Tick w # rediscover a wfind wclaim wread @ map Tick ws) s =
             s\<lparr>device := Some UsbDevice, commandQueue := [],
               usb_log := usb_log s @ [DevReset, DisposeResources] @
                 claim_calls (ClaimOk active) @ calls_of (commandQueue s),
               pc := ProcessCommands\<rparr>)) \<and>
     (pc s = ProcessCommands \<and> commandQueue s = c # rest \<and> command_call c = Inr call \<and>
      w_command w = Some errno \<longrightarrow>
        thread_step kt w s =
          s\<lparr>commandQueue := rest, usb_log := usb_log s @ [call], pc := RunLoop\<rparr> \<and>
        run kt (Tick w # replicate 5 (Tick a)) s =
          s\<lparr>state := DISCOVERING, device := None, commandQueue := rest,
            usb_log := usb_log s @ [call, DevReset, DisposeResources], pc := DiscoverLoop\<rparr> \<and>
        ((\<forall>c\<in>set rest. accepted c) \<and> length ws = length rest \<longrightarrow>
           run kt (Tick w # rediscover a wfind wclaim wread @ map Tick ws) s =
             s\<lparr>device := Some UsbDevice, commandQueue := [],
               usb_log := usb_log s @ [call, DevReset, DisposeResources] @
                 claim_calls (ClaimOk active) @ calls_of rest,
               pc := ProcessCommands\<rparr>))"
proof (intro conjI impI)
  assume "pc s \<noteq> ProcessCommands"
  then show "commandQueue (thread_step kt w s) = commandQueue s"
    by (rule thread_step_keeps_queue)
next
  assume a: "pc s = PollRead \<and> w_read w = ReadRaises errno \<and> errno \<noteq> ETIMEDOUT"
  let ?s1 = "s\<lparr>pc := RunLoop\<rparr>"
  from a show step1: "thread_step kt w s = ?s1"
    using assms(1) by (simp add: thread_step_def poll_read_def)
  have at: "pc ?s1 = RunLoop" "state ?s1 = FOUND" "device ?s1 = Some d"
    using assms(1,2) by simp_all
  have "run kt (Tick w # replicate 5 (Tick a)) s = run kt (replicate 5 (Tick a)) ?s1"
    using step1 by (simp add: run_def)
  also note drop_back [OF at]
  finally show "run kt (Tick w # replicate 5 (Tick a)) s =
      s\<lparr>state := DISCOVERING, device := None,
        usb_log := usb_log s @ [DevReset, DisposeResources], pc := DiscoverLoop\<rparr>"
    by simp
  assume b: "(\<forall>c\<in>set (commandQueue s). accepted c) \<and> length ws = length (commandQueue s)"
  have "run kt (Tick w # rediscover a wfind wclaim wread @ map Tick ws) s =
      run kt (rediscover a wfind wclaim wread @ map Tick ws) ?s1"
    using step1 by (simp add: run_def)
  also have "\<dots> = ?s1\<lparr>device := Some UsbDevice, commandQueue := [],
       usb_log := usb_log ?s1 @ [DevReset, DisposeResources] @ claim_calls (ClaimOk active) @
         calls_of (commandQueue ?s1),
       pc := ProcessCommands\<rparr>"
    using at assms(3-6) b by (intro rediscover_and_drain) simp_all
  finally show "run kt (Tick w # rediscover a wfind wclaim wread @ map Tick ws) s =
      s\<lparr>device := Some UsbDevice, commandQueue := [],
        usb_log := usb_log s @ [DevReset, DisposeResources] @
          claim_calls (ClaimOk active) @ calls_of (commandQueue s),
        pc := ProcessCommands\<rparr>"
    by simp
next
  assume a: "pc s = ProcessCommands \<and> commandQueue s = c # rest \<and> command_call c = Inr call \<and>
      w_command w = Some errno"
  let ?s1 = "s\<lparr>commandQueue := rest, usb_log := usb_log s @ [call], pc := RunLoop\<rparr>"
  from a show step1: "thread_step kt w s = ?s1"
    using assms(1) by (simp add: thread_step_def process_command_def)
  have at: "pc ?s1 = RunLoop" "state ?s1 = FOUND" "device ?s1 = Some d"
    using assms(1,2) by simp_all
  have "run kt (Tick w # replicate 5 (Tick a)) s = run kt (replicate 5 (Tick a)) ?s1"
    using step1 by (simp add: run_def)
  also note drop_back [OF at]
  finally show "run kt (Tick w # replicate 5 (Tick a)) s =
      s\<lparr>state := DISCOVERING, device := None, commandQueue := rest,
        usb_log := usb_log s @ [call, DevReset, DisposeResources], pc := DiscoverLoop\<rparr>"
    by simp
  assume b: "(\<forall>c\<in>set rest. accepted c) \<and> length ws = length rest"
  have "run kt (Tick w # rediscover a wfind wclaim wread @ map Tick ws) s =
      run kt (rediscover a wfind wclaim wread @ map Tick ws) ?s1"
    using step1 by (simp add: run_def)
  also have "\<dots> = ?s1\<lparr>device := Some UsbDevice, commandQueue := [],
       usb_log := usb_log ?s1 @ [DevReset, DisposeResources] @ claim_calls (ClaimOk active) @
         calls_of (commandQueue ?s1),
       pc := ProcessCommands\<rparr>"
    using at assms(3-6) b by (intro rediscover_and_drain) simp_all
  finally show "run kt (Tick w # rediscover a wfind wclaim wread @ map Tick ws) s =
      s\<lparr>device := Some UsbDevice, commandQueue := [],
        usb_log := usb_log s @ [call, DevReset, DisposeResources] @
          claim_calls (ClaimOk active) @ calls_of rest,
        pc := ProcessCommands\<rparr>"
    by simp
qed

lemma queued_run:
  "run demo_keys (to_found @ two_commands @ [Tick quiet]) init =
     init\<lparr>state := FOUND, device := Some UsbDevice,
       commandQueue := [Cmd_setLedsMode 1, Cmd_setBacklightColor 1 2 3],
       usb_log := [DevReset, IsKernelDriverActive, FindDescriptor, SetConfiguration],
       pc := PollRead\<rparr>"
  by (simp add: to_found_def two_commands_def eval_run)

theorem io_error_keeps_queue_witness:
  "run demo_keys (Tick io_error # rediscover quiet quiet quiet quiet @ map Tick [quiet, quiet])
     (run demo_keys (to_found @ two_commands @ [Tick quiet]) init) =
     init\<lparr>state := FOUND, device := Some UsbDevice,
       usb_log := [DevReset, IsKernelDriverActive, FindDescriptor, SetConfiguration,
         DevReset, DisposeResources,
         DevReset, IsKernelDriverActive, FindDescriptor, SetConfiguration,
         CtrlTransfer 0x21 9 0x305 0 [5, 1, 0, 0, 0], CtrlTransfer 0x21 9 0x307 0 [5, 1, 2, 3, 0]],
       pc := ProcessCommands\<rparr>"
proof -
  let ?s = "run demo_keys (to_found @ two_commands @ [Tick quiet]) init"
  have s: "device ?s = Some UsbDevice" "state ?s = FOUND" "pc ?s = PollRead"
    "commandQueue ?s = [Cmd_setLedsMode 1, Cmd_setBacklightColor 1 2 3]"
    unfolding queued_run by simp_all
  have w: "w_find quiet = FindDevice" "w_claim quiet = ClaimOk False"
    "w_read quiet = ReadRaises ETIMEDOUT" "\<forall>w\<in>set [quiet, quiet]. w_command w = None"
    "w_read io_error = ReadRaises 19" "(19 :: int) \<noteq> ETIMEDOUT"
    by (simp_all add: quiet_def io_error_def ETIMEDOUT_def)
  have q: "\<forall>c\<in>set (commandQueue ?s). accepted c" "length [quiet, quiet] = length (commandQueue ?s)"
    unfolding s(4) by (simp_all add: accepted_def as_array_def)
  from io_error_keeps_queue [OF s(1,2) w(1-4),
      where w = io_error and errno = 19 and kt = demo_keys and a = quiet] s(3) w(5,6) q
  have "run demo_keys (Tick io_error # rediscover quiet quiet quiet quiet @ map Tick [quiet, quiet]) ?s =
      ?s\<lparr>device := Some UsbDevice, commandQueue := [],
        usb_log := usb_log ?s @ [DevReset, DisposeResources] @ claim_calls (ClaimOk False) @
          calls_of (commandQueue ?s),
        pc := ProcessCommands\<rparr>"
    by blast
  then show ?thesis
    unfolding queued_run by (simp add: calls_of_def as_array_def detach_calls_def init_def)
qed

text \<open>
  C8 as stated fails. With two commands queued, a failed read abandons neither and a
  failed first command abandons only itself: after the reset and the new discovery the
  queued commands are run.
\<close>

theorem io_error_counterexample:
  "commandQueue (run demo_keys (to_found @ two_commands @ [Tick quiet, Tick io_error]) init) =
     [Cmd_setLedsMode 1, Cmd_setBacklightColor 1 2 3] \<and>
   usb_log (run demo_keys
       (to_found @ two_commands @ [Tick quiet, Tick io_error] @ replicate 16 (Tick quiet)) init) =
     [DevReset, IsKernelDriverActive, FindDescriptor, SetConfiguration, DevReset, DisposeResources,
      DevReset, IsKernelDriverActive, FindDescriptor, SetConfiguration,
      CtrlTransfer 0x21 9 0x305 0 [5, 1, 0, 0, 0], CtrlTransfer 0x21 9 0x307 0 [5, 1, 2, 3, 0]] \<and>
   usb_log (run demo_keys
       (to_found @ two_commands @ [Tick quiet, Tick quiet, Tick io_error] @
        replicate 15 (Tick quiet)) init) =
     [DevReset, IsKernelDriverActive, FindDescriptor, SetConfiguration,
      CtrlTransfer 0x21 9 0x305 0 [5, 1, 0, 0, 0], DevReset, DisposeResources,
      DevReset, IsKernelDriverActive, FindDescriptor, SetConfiguration,
      CtrlTransfer 0x21 9 0x307 0 [5, 1, 2, 3, 0]]"
proof -
  have "run demo_keys (to_found @ two_commands @ [Tick quiet, Tick io_error]) init =
     init\<lparr>state := FOUND, device := Some UsbDevice,
       commandQueue := [Cmd_setLedsMode 1, Cmd_setBacklightColor 1 2 3],
       usb_log := [DevReset, IsKernelDriverActive, FindDescriptor, SetConfiguration],
       pc := RunLoop\<rparr>"
    by (simp add: to_found_def two_commands_def io_error_def eval_run)
  then have "commandQueue (run demo_keys (to_found @ two_commands @ [Tick quiet, Tick io_error]) init) =
     [Cmd_setLedsMode 1, Cmd_setBacklightColor 1 2 3]"
    by simp
  moreover have "usb_log (run demo_keys
       (to_found @ two_commands @ [Tick quiet, Tick io_error] @ replicate 16 (Tick quiet)) init) =
     [DevReset, IsKernelDriverActive, FindDescriptor, SetConfiguration, DevReset, DisposeResources,
      DevReset, IsKernelDriverActive, FindDescriptor, SetConfiguration,
      CtrlTransfer 0x21 9 0x305 0 [5, 1, 0, 0, 0], CtrlTransfer 0x21 9 0x307 0 [5, 1, 2, 3, 0]]"
    unfolding read_error_run by simp
  moreover have "usb_log (run demo_keys
       (to_found @ two_commands @ [Tick quiet, Tick quiet, Tick io_error] @
        replicate 15 (Tick quiet)) init) =
     [DevReset, IsKernelDriverActive, FindDescriptor, SetConfiguration,
      CtrlTransfer 0x21 9 0x305 0 [5, 1, 0, 0, 0], DevReset, DisposeResources,
      DevReset, IsKernelDriverActive, FindDescriptor, SetConfiguration,
      CtrlTransfer 0x21 9 0x307 0 [5, 1, 2, 3, 0]]"
    unfolding command_error_run by simp
  ultimately show ?thesis by blast
qed

text \<open>
  A queued \<open>setLCDBuffer\<close> with the \<open>bytes\<close> object that \<open>ImageToLPBM\<close> returns: the
  command is dequeued, \<open>header + buffer\<close> raises \<open>TypeError\<close>, and the thread ends with
  the commands behind it still queued.
\<close>

lemma bytes_buffer_ends_thread:
  assumes "pc s = ProcessCommands" and "device s = Some d"
    and "commandQueue s = Cmd_setLCDBuffer (BytesBuffer bs) # rest"
  shows "thread_step kt w s = s\<lparr>commandQueue := rest, pc := Crashed TypeError\<rparr>"
  using assms by (simp add: thread_step_def process_command_def header_plus_def)

end
